theory Spec2Isabelle
  imports Main "HOL-Library.Multiset"
begin

section \<open>Strings, locations and the naming pattern\<close>

text \<open>
  File names and package ids are modelled as \<open>string\<close>: lists of 8-bit characters, read
  as JavaScript code units below 256. A location (\<open>URI\<close>) is the string of its path.
\<close>

type_synonym URI = string

definition joinPath :: "URI \<Rightarrow> string \<Rightarrow> URI" where
  "joinPath dir name = dir @ ''/'' @ name"

text \<open>
  \<open>String.prototype.toLowerCase\<close> on code units below 256: the letters A-Z and the
  Latin-1 capitals 192-222 (without the multiplication sign 215) move up by 32.
\<close>

definition toLowerCase_char :: "char \<Rightarrow> char" where
  "toLowerCase_char c =
     (let n = (of_char c :: nat)
      in if (65 \<le> n \<and> n \<le> 90) \<or> (192 \<le> n \<and> n \<le> 222 \<and> n \<noteq> 215)
         then char_of (n + 32) else c)"

definition toLowerCase :: "string \<Rightarrow> string" where
  "toLowerCase s = map toLowerCase_char s"

text \<open>
  The fragment of regular expressions that \<open>ExtensionIdVersionRegex\<close> is written in:
  a literal character, a character class under \<open>+\<close>, and concatenation.
\<close>

datatype regex = Lit char | Plus "char \<Rightarrow> bool" | Cat regex regex

text \<open>All ways to cut a list in two, the longest first part first (greedy order).\<close>

definition splits :: "'a list \<Rightarrow> ('a list \<times> 'a list) list" where
  "splits s = map (\<lambda>k. (take k s, drop k s)) (rev [0..<Suc (length s)])"

fun regex_match :: "regex \<Rightarrow> string \<Rightarrow> bool" where
  "regex_match (Lit c) s = (s = [c])"
| "regex_match (Plus P) s = (s \<noteq> [] \<and> list_all P s)"
| "regex_match (Cat a b) s = list_ex (\<lambda>(u, v). regex_match a u \<and> regex_match b v) (splits s)"

text \<open>The classes \<open>[^.]\<close>, \<open>.\<close> (anything but a line terminator) and \<open>\d\<close>.\<close>

definition not_dot :: "char \<Rightarrow> bool" where
  "not_dot c = (c \<noteq> CHR ''.'')"

definition any_char :: "char \<Rightarrow> bool" where
  "any_char c = (c \<noteq> CHR 0x0A \<and> c \<noteq> CHR 0x0D)"

definition digit :: "char \<Rightarrow> bool" where
  "digit c = (c \<in> set ''0123456789'')"

text \<open>The two capture groups of \<open>/^([^.]+\..+)-(\d+\.\d+\.\d+)$/\<close>.\<close>

definition id_group :: regex where
  "id_group = Cat (Plus not_dot) (Cat (Lit CHR ''.'') (Plus any_char))"

definition version_group :: regex where
  "version_group =
     Cat (Plus digit) (Cat (Lit CHR ''.'') (Cat (Plus digit) (Cat (Lit CHR ''.'') (Plus digit))))"

text \<open>
  \<open>ExtensionIdVersionRegex.exec(name)\<close>: the pattern is anchored at both ends, so a match is
  a cut of the whole name at a dash, the first group before it and the second after it.
  The cuts are tried with the longest first group first, as the greedy \<open>.+\<close> backtracks.
  The result is the pair of captured groups, or \<open>None\<close> for \<open>null\<close>.
\<close>

definition ExtensionIdVersionRegex_exec :: "string \<Rightarrow> (string \<times> string) option" where
  "ExtensionIdVersionRegex_exec name =
     find (\<lambda>(m1, m2). regex_match id_group m1 \<and> regex_match version_group m2)
       (map (\<lambda>k. (take k name, drop (Suc k) name))
          (filter (\<lambda>k. name ! k = CHR ''-'') (rev [0..<length name])))"

section \<open>Identities, serialisation and parsing\<close>

record ExtensionIdentifierWithVersion =
  ext_id :: string
  version :: string

text \<open>The fields of \<open>IGalleryExtension\<close> that the downloader reads.\<close>

record IGalleryExtension =
  gallery_id :: string
  gallery_version :: string

definition new_ExtensionIdentifierWithVersion ::
    "string \<Rightarrow> string \<Rightarrow> ExtensionIdentifierWithVersion" where
  "new_ExtensionIdentifierWithVersion i v = \<lparr>ext_id = i, version = v\<rparr>"

text \<open>
  Modelled from the spec: \<open>ExtensionIdentifierWithVersion.key()\<close> is declared outside the
  given sources; the spec gives the canonical serialisation as the package id, a dash, and
  the version.
\<close>

definition key :: "ExtensionIdentifierWithVersion \<Rightarrow> string" where
  "key e = ext_id e @ ''-'' @ version e"

text \<open>
  \<open>getName\<close>: \<open>cache\<close> is the retention limit (0 when caching is disabled); \<open>uuid\<close> is the
  token that \<open>generateUuid()\<close> returns at this call.
\<close>

definition getName :: "nat \<Rightarrow> string \<Rightarrow> IGalleryExtension \<Rightarrow> string" where
  "getName cache uuid extension =
     (if cache \<noteq> 0
      then toLowerCase (key (new_ExtensionIdentifierWithVersion
                               (gallery_id extension) (gallery_version extension)))
      else uuid)"

text \<open>
  \<open>parse\<close>: the result of \<open>exec\<close> and both groups have to be truthy (a group is truthy when
  it is not the empty string).
\<close>

definition parse :: "string \<Rightarrow> ExtensionIdentifierWithVersion option" where
  "parse name =
     (case ExtensionIdVersionRegex_exec name of
        None \<Rightarrow> None
      | Some (m1, m2) \<Rightarrow>
          if m1 \<noteq> [] \<and> m2 \<noteq> [] then Some (new_ExtensionIdentifierWithVersion m1 m2) else None)"

section \<open>Version comparison, sorting and grouping\<close>

datatype error = Error string

text \<open>
  \<open>semver.rcompare\<close> belongs to a library outside the given sources; it is modelled on
  the versions that \<open>parse\<close> returns, three runs of digits separated by dots.

  Modelled from the spec: the comparison is that of major, then minor, then patch, on the
  three numeric fields. \<open>SemVer_fields\<close> reads the three fields of a version string.
\<close>

definition digit_value :: "char \<Rightarrow> int" where
  "digit_value c = of_char c - 48"

definition parseInt :: "string \<Rightarrow> int" where
  "parseInt s = foldl (\<lambda>n c. 10 * n + digit_value c) 0 s"

definition SemVer_fields :: "string \<Rightarrow> int \<times> int \<times> int" where
  "SemVer_fields v =
     (let major = takeWhile not_dot v;
          rest = drop 1 (dropWhile not_dot v);
          minor = takeWhile not_dot rest;
          patch = drop 1 (dropWhile not_dot rest)
      in (parseInt major, parseInt minor, parseInt patch))"

definition compareIdentifiers :: "int \<Rightarrow> int \<Rightarrow> int" where
  "compareIdentifiers a b = (if a < b then - 1 else if b < a then 1 else 0)"

definition compareMain :: "int \<times> int \<times> int \<Rightarrow> int \<times> int \<times> int \<Rightarrow> int" where
  "compareMain a b =
     (case (a, b) of
        ((ma, mi, pa), (mb, ni, pb)) \<Rightarrow>
          if compareIdentifiers ma mb \<noteq> 0 then compareIdentifiers ma mb
          else if compareIdentifiers mi ni \<noteq> 0 then compareIdentifiers mi ni
          else compareIdentifiers pa pb)"

text \<open>
  The library builds a \<open>SemVer\<close> of each argument before it compares, and the constructor
  throws a \<open>TypeError\<close> for a version longer than 256 characters, for a numeric field
  with a leading zero (its numeric identifier is \<open>0|[1-9]\d*\<close>), and for a field above
  the largest safe integer, 2 to the 53 minus 1. The pattern of \<open>parse\<close> accepts all of
  these. What the library reads beside the three fields (a \<open>v\<close> before them, a
  pre-release or build part after them) cannot occur in a version that \<open>parse\<close> returns;
  the model rejects it as an invalid version.
\<close>

definition MAX_LENGTH :: nat where
  "MAX_LENGTH = 256"

definition MAX_SAFE_INTEGER :: int where
  "MAX_SAFE_INTEGER = 9007199254740991"

definition numeric_identifier :: "string \<Rightarrow> bool" where
  "numeric_identifier s = (s = ''0'' \<or> (s \<noteq> [] \<and> list_all digit s \<and> hd s \<noteq> CHR ''0''))"

definition SemVer :: "string \<Rightarrow> error + int \<times> int \<times> int" where
  "SemVer v =
     (let major = takeWhile not_dot v;
          rest = drop 1 (dropWhile not_dot v);
          minor = takeWhile not_dot rest;
          patch = drop 1 (dropWhile not_dot rest)
      in if MAX_LENGTH < length v
         then Inl (Error ''version is longer than 256 characters'')
         else if \<not> (numeric_identifier major \<and> numeric_identifier minor \<and>
                      numeric_identifier patch)
         then Inl (Error (''Invalid Version: '' @ v))
         else if MAX_SAFE_INTEGER < parseInt major then Inl (Error ''Invalid major version'')
         else if MAX_SAFE_INTEGER < parseInt minor then Inl (Error ''Invalid minor version'')
         else if MAX_SAFE_INTEGER < parseInt patch then Inl (Error ''Invalid patch version'')
         else Inr (SemVer_fields v))"

text \<open>\<open>compare(a, b)\<close> is \<open>new SemVer(a).compare(new SemVer(b))\<close>.\<close>

definition compare :: "string \<Rightarrow> string \<Rightarrow> error + int" where
  "compare a b =
     (case SemVer a of
        Inl e \<Rightarrow> Inl e
      | Inr x \<Rightarrow>
          (case SemVer b of
             Inl e \<Rightarrow> Inl e
           | Inr y \<Rightarrow> Inr (compareMain x y)))"

definition rcompare :: "string \<Rightarrow> string \<Rightarrow> error + int" where
  "rcompare a b = compare b a"

text \<open>
  \<open>Array.prototype.sort\<close> with a comparator that may throw: a stable sort, here by
  insertion; an element goes before the elements it does not compare greater than, and
  what the comparator throws ends the sort. An array of fewer than two elements is
  returned without a call of the comparator.
\<close>

fun insert_sorted ::
    "('a \<Rightarrow> 'a \<Rightarrow> error + int) \<Rightarrow> 'a \<Rightarrow> 'a list \<Rightarrow> error + 'a list" where
  "insert_sorted cmp x [] = Inr [x]"
| "insert_sorted cmp x (y # ys) =
     (case cmp x y of
        Inl e \<Rightarrow> Inl e
      | Inr c \<Rightarrow>
          if c \<le> 0 then Inr (x # y # ys)
          else (case insert_sorted cmp x ys of
                  Inl e \<Rightarrow> Inl e
                | Inr zs \<Rightarrow> Inr (y # zs)))"

fun Array_sort :: "('a \<Rightarrow> 'a \<Rightarrow> error + int) \<Rightarrow> 'a list \<Rightarrow> error + 'a list" where
  "Array_sort cmp [] = Inr []"
| "Array_sort cmp (x # xs) =
     (case Array_sort cmp xs of
        Inl e \<Rightarrow> Inl e
      | Inr sorted_xs \<Rightarrow> insert_sorted cmp x sorted_xs)"

text \<open>
  Modelled from the spec: \<open>groupByExtension\<close> is declared outside the given sources. The
  spec groups the entries by package id, the groups in the order in which their first
  member is met in the listing; a later member joins the end of its group.
\<close>

fun push_to_group :: "('a \<Rightarrow> string) \<Rightarrow> 'a \<Rightarrow> 'a list list \<Rightarrow> 'a list list" where
  "push_to_group getId x [] = [[x]]"
| "push_to_group getId x (g # gs) =
     (if list_ex (\<lambda>e. getId e = getId x) g then (g @ [x]) # gs
      else g # push_to_group getId x gs)"

definition groupByExtension :: "'a list \<Rightarrow> ('a \<Rightarrow> string) \<Rightarrow> 'a list list" where
  "groupByExtension extensions getId = foldl (\<lambda>gs x. push_to_group getId x gs) [] extensions"

section \<open>The reconciliation pass\<close>

record IFileStat =
  name :: string
  resource :: URI

text \<open>The listing of a folder whose children have the given names.\<close>

definition listing :: "URI \<Rightarrow> string list \<Rightarrow> IFileStat list" where
  "listing dir names = map (\<lambda>n. \<lparr>name = n, resource = joinPath dir n\<rparr>) names"

text \<open>
  The first loop of \<open>cleanUp\<close>: a child whose name parses joins \<open>all\<close> with its identity,
  any other child has its location pushed on \<open>toDelete\<close>.
\<close>

fun scan_children ::
    "IFileStat list \<Rightarrow> URI list \<Rightarrow> (ExtensionIdentifierWithVersion \<times> IFileStat) list
       \<Rightarrow> URI list \<times> (ExtensionIdentifierWithVersion \<times> IFileStat) list" where
  "scan_children [] toDelete all = (toDelete, all)"
| "scan_children (stat # children) toDelete all =
     (case parse (name stat) of
        Some extension \<Rightarrow> scan_children children toDelete (all @ [(extension, stat)])
      | None \<Rightarrow> scan_children children (toDelete @ [resource stat]) all)"

text \<open>
  The second loop: each group is sorted newest first, all but its first entry are pushed
  on \<open>toDelete\<close> and the first on \<open>distinct\<close>. What the comparator throws ends the loop.
  Reading \<open>p[0][1]\<close> of an empty group throws.
\<close>

fun prune_groups ::
    "(ExtensionIdentifierWithVersion \<times> IFileStat) list list \<Rightarrow> URI list \<Rightarrow> URI list
       \<Rightarrow> error + (URI list \<times> URI list)" where
  "prune_groups [] toDelete distinct_uris = Inr (toDelete, distinct_uris)"
| "prune_groups (p # groups) toDelete distinct_uris =
     (case Array_sort (\<lambda>a b. rcompare (version (fst a)) (version (fst b))) p of
        Inl e \<Rightarrow> Inl e
      | Inr [] \<Rightarrow> Inl (Error ''TypeError: Cannot read property 1 of undefined'')
      | Inr (newest # outdated) \<Rightarrow>
          prune_groups groups (toDelete @ map (\<lambda>e. resource (snd e)) outdated)
            (distinct_uris @ [resource (snd newest)]))"

text \<open>
  The arrays \<open>toDelete\<close> and \<open>distinct\<close> of \<open>cleanUp\<close> after its two loops over
  the listing \<open>children\<close>.
\<close>

definition collect_groups :: "IFileStat list \<Rightarrow> error + (URI list \<times> URI list)" where
  "collect_groups children =
     (case scan_children children [] [] of
        (toDelete, all) \<Rightarrow>
          prune_groups (groupByExtension all (\<lambda>e. ext_id (fst e))) toDelete [])"

text \<open>
  The array \<open>toDelete\<close> when \<open>cleanUp\<close> starts deleting, for the retention limit \<open>cache\<close>.
  The last push is \<open>distinct.slice(0, Math.max(0, distinct.length - this.cache))\<close>.
\<close>

definition collect_toDelete :: "nat \<Rightarrow> IFileStat list \<Rightarrow> error + URI list" where
  "collect_toDelete cache children =
     (case collect_groups children of
        Inl e \<Rightarrow> Inl e
      | Inr (toDelete, distinct_uris) \<Rightarrow>
          Inr (toDelete @
               take (nat (max 0 (int (length distinct_uris) - int cache))) distinct_uris))"

text \<open>
  Named for the statements below. \<open>recognized\<close> is the array \<open>all\<close> after the first
  loop. \<open>valid_version\<close> says that the library accepts a version. \<open>comparable\<close> says
  that no sort of the second loop throws: every group of two or more entries holds valid
  versions only (a group of one is never compared). \<open>newest_first\<close> is the sort where
  no comparison throws, on the fields alone, and \<open>byExtension\<close> the groups sorted so.
\<close>

definition recognized :: "IFileStat list \<Rightarrow> (ExtensionIdentifierWithVersion \<times> IFileStat) list" where
  "recognized children = snd (scan_children children [] [])"

definition valid_version :: "string \<Rightarrow> bool" where
  "valid_version v = (\<not> isl (SemVer v))"

definition comparable :: "IFileStat list \<Rightarrow> bool" where
  "comparable children =
     list_all (\<lambda>p. length p < 2 \<or> list_all (\<lambda>e. valid_version (version (fst e))) p)
       (groupByExtension (recognized children) (\<lambda>e. ext_id (fst e)))"

definition compare_fields :: "string \<Rightarrow> string \<Rightarrow> int" where
  "compare_fields a b = compareMain (SemVer_fields a) (SemVer_fields b)"

definition rcompare_fields :: "string \<Rightarrow> string \<Rightarrow> int" where
  "rcompare_fields a b = compare_fields b a"

fun insert_newest :: "('a \<Rightarrow> 'a \<Rightarrow> int) \<Rightarrow> 'a \<Rightarrow> 'a list \<Rightarrow> 'a list" where
  "insert_newest cmp x [] = [x]"
| "insert_newest cmp x (y # ys) =
     (if cmp x y \<le> 0 then x # y # ys else y # insert_newest cmp x ys)"

definition newest_first :: "('a \<Rightarrow> 'a \<Rightarrow> int) \<Rightarrow> 'a list \<Rightarrow> 'a list" where
  "newest_first cmp xs = foldr (insert_newest cmp) xs []"

definition byExtension ::
    "IFileStat list \<Rightarrow> (ExtensionIdentifierWithVersion \<times> IFileStat) list list" where
  "byExtension children =
     map (newest_first (\<lambda>a b. rcompare_fields (version (fst a)) (version (fst b))))
       (groupByExtension (recognized children) (\<lambda>e. ext_id (fst e)))"

text \<open>
  The services as the pass sees them. \<open>exists\<close> and \<open>resolve\<close> answer or throw; \<open>resolve\<close>
  answers with the children of the folder, which may be undefined. \<open>del\<close> answers with the
  tick at which the deletion settles and whether it then succeeded or failed.
\<close>

record IFileService =
  exists :: "URI \<Rightarrow> error + bool"
  resolve :: "URI \<Rightarrow> error + IFileStat list option"
  del :: "URI \<Rightarrow> nat \<times> (error + unit)"

datatype log_entry = Trace "string list" | LogError error

text \<open>
  \<open>Promise.all\<close> over promises given by their settling tick and outcome: fulfilled with
  all values once the last one is fulfilled, or rejected with the reason of the promise
  that rejects first, at the tick it rejects.
\<close>

definition Promise_all :: "(nat \<times> (error + 'a)) list \<Rightarrow> nat \<times> (error + 'a list)" where
  "Promise_all ps =
     (case filter (\<lambda>p. isl (snd p)) ps of
        [] \<Rightarrow> (foldr max (map fst ps) 0, Inr (map (\<lambda>p. projr (snd p)) ps))
      | r # rs \<Rightarrow>
          (let first = foldl (\<lambda>a b. if fst b < fst a then b else a) r rs
           in (fst first, Inl (projl (snd first)))))"

record pass =
  log :: "log_entry list"
  deletions :: "URI list"
  settled_at :: nat
  outcome :: "error + unit"

text \<open>
  The body of the \<open>try\<close> block of \<open>cleanUp\<close>: what is logged, which deletions are issued, the
  tick at which the awaited \<open>Promise.all\<close> settles (0 when none is awaited), and whether the
  block ends normally or throws.
\<close>

definition cleanUp_try :: "IFileService \<Rightarrow> URI \<Rightarrow> nat \<Rightarrow> pass" where
  "cleanUp_try fileService extensionsDownloadDir cache =
     (case exists fileService extensionsDownloadDir of
        Inl e \<Rightarrow> \<lparr>log = [], deletions = [], settled_at = 0, outcome = Inl e\<rparr>
      | Inr False \<Rightarrow>
          \<lparr>log = [Trace [''Extension VSIX downlads cache dir does not exist'']],
           deletions = [], settled_at = 0, outcome = Inr ()\<rparr>
      | Inr True \<Rightarrow>
          (case resolve fileService extensionsDownloadDir of
             Inl e \<Rightarrow> \<lparr>log = [], deletions = [], settled_at = 0, outcome = Inl e\<rparr>
           | Inr None \<Rightarrow> \<lparr>log = [], deletions = [], settled_at = 0, outcome = Inr ()\<rparr>
           | Inr (Some children) \<Rightarrow>
               (case collect_toDelete cache children of
                  Inl e \<Rightarrow> \<lparr>log = [], deletions = [], settled_at = 0, outcome = Inl e\<rparr>
                | Inr toDelete \<Rightarrow>
                    (case Promise_all (map (del fileService) toDelete) of
                       (tick, result) \<Rightarrow>
                         \<lparr>log = map (\<lambda>resource. Trace [''Deleting vsix from cache'', resource])
                                  toDelete,
                          deletions = toDelete, settled_at = tick,
                          outcome = (case result of Inl e \<Rightarrow> Inl e | Inr _ \<Rightarrow> Inr ())\<rparr>))))"

text \<open>\<open>cleanUp\<close>: the \<open>catch\<close> block logs what the \<open>try\<close> block throws.\<close>

definition cleanUp :: "IFileService \<Rightarrow> URI \<Rightarrow> nat \<Rightarrow> pass" where
  "cleanUp fileService extensionsDownloadDir cache =
     (let p = cleanUp_try fileService extensionsDownloadDir cache
      in case outcome p of
           Inl e \<Rightarrow> p\<lparr>log := log p @ [LogError e], outcome := Inr ()\<rparr>
         | Inr u \<Rightarrow> p)"

section \<open>The downloader and its collaborators\<close>

text \<open>
  The state of an \<open>ExtensionsDownloader\<close> after its constructor: the download directory
  and the retention limit \<open>cache\<close>. With a download path configured the directory is that
  path and the limit is 20; otherwise the directory is the temporary directory \<open>tmp\<close> and
  the limit stays 0. An undefined or empty path is falsy.
\<close>

record ExtensionsDownloader =
  extensionsDownloadDir :: URI
  cache :: nat

definition new_ExtensionsDownloader :: "string option \<Rightarrow> string \<Rightarrow> ExtensionsDownloader" where
  "new_ExtensionsDownloader extensionsDownloadPath tmp =
     (case extensionsDownloadPath of
        None \<Rightarrow> \<lparr>extensionsDownloadDir = tmp, cache = 0\<rparr>
      | Some path \<Rightarrow>
          if path \<noteq> [] then \<lparr>extensionsDownloadDir = path, cache = 20\<rparr>
          else \<lparr>extensionsDownloadDir = tmp, cache = 0\<rparr>)"

text \<open>
  Modelled from the spec: the Blob Store and the Artifact Fetcher are declared outside the
  given sources. The spec gives their interface: \<open>exists\<close> answers whether a location
  exists; \<open>delete\<close> removes a location and fails if it is absent or cannot be removed;
  \<open>fetch\<close> writes the artifact so that the target exists afterwards; each may fail. The
  world holds the existing locations, the invocations of the fetcher so far, and which
  calls fail with which error. The install operation is a value of any type \<open>'o\<close>.
\<close>

datatype 'o call = Exists URI | Del URI | Download IGalleryExtension URI 'o

record 'o world =
  files :: "URI set"
  downloads :: "(IGalleryExtension \<times> URI \<times> 'o) list"
  faults :: "'o call \<Rightarrow> error option"

definition fileService_exists :: "'o world \<Rightarrow> URI \<Rightarrow> error + bool" where
  "fileService_exists w location =
     (case faults w (Exists location) of
        Some e \<Rightarrow> Inl e
      | None \<Rightarrow> Inr (location \<in> files w))"

definition fileService_del :: "'o world \<Rightarrow> URI \<Rightarrow> (error + unit) \<times> 'o world" where
  "fileService_del w location =
     (case faults w (Del location) of
        Some e \<Rightarrow> (Inl e, w)
      | None \<Rightarrow>
          if location \<in> files w then (Inr (), w\<lparr>files := files w - {location}\<rparr>)
          else (Inl (Error ''FileNotFound''), w))"

definition extensionGalleryService_download ::
    "'o world \<Rightarrow> IGalleryExtension \<Rightarrow> URI \<Rightarrow> 'o \<Rightarrow> (error + unit) \<times> 'o world" where
  "extensionGalleryService_download w extension location operation =
     (let w' = w\<lparr>downloads := downloads w @ [(extension, location, operation)]\<rparr>
      in case faults w (Download extension location operation) of
           Some e \<Rightarrow> (Inl e, w')
         | None \<Rightarrow> (Inr (), w'\<lparr>files := insert location (files w')\<rparr>))"

text \<open>\<open>download\<close>: fetch only when the location does not exist.\<close>

definition download ::
    "'o world \<Rightarrow> IGalleryExtension \<Rightarrow> URI \<Rightarrow> 'o \<Rightarrow> (error + unit) \<times> 'o world" where
  "download w extension location operation =
     (case fileService_exists w location of
        Inl e \<Rightarrow> (Inl e, w)
      | Inr True \<Rightarrow> (Inr (), w)
      | Inr False \<Rightarrow> extensionGalleryService_download w extension location operation)"

text \<open>
  \<open>downloadExtension\<close> from the point where \<open>await this.cleanUpPromise\<close> has returned;
  \<open>uuid\<close> is the token \<open>generateUuid()\<close> would return at this call.
\<close>

definition downloadExtension ::
    "ExtensionsDownloader \<Rightarrow> string \<Rightarrow> 'o world \<Rightarrow> IGalleryExtension \<Rightarrow> 'o
       \<Rightarrow> (error + URI) \<times> 'o world" where
  "downloadExtension this uuid w extension operation =
     (let location = joinPath (extensionsDownloadDir this) (getName (cache this) uuid extension)
      in case download w extension location operation of
           (Inl e, w') \<Rightarrow> (Inl e, w')
         | (Inr _, w') \<Rightarrow> (Inr location, w'))"

text \<open>\<open>delete\<close>: delete immediately if caching is disabled.\<close>

definition delete :: "ExtensionsDownloader \<Rightarrow> 'o world \<Rightarrow> URI \<Rightarrow> (error + unit) \<times> 'o world" where
  "delete this w location =
     (if cache this = 0 then fileService_del w location else (Inr (), w))"

section \<open>Download calls beside the reconciliation pass\<close>

text \<open>
  \<open>cleanUpPromise\<close> is pending while \<open>cleanUp\<close> runs and resolved once it has returned;
  without a download path it is \<open>Promise.resolve()\<close>.
\<close>

datatype promise = Pending | Resolved

definition new_cleanUpPromise :: "string option \<Rightarrow> promise" where
  "new_cleanUpPromise extensionsDownloadPath =
     (case extensionsDownloadPath of
        None \<Rightarrow> Resolved
      | Some path \<Rightarrow> if path \<noteq> [] then Pending else Resolved)"

text \<open>
  A call of \<open>downloadExtension\<close> in progress, by the statement it stands at: the
  \<open>await this.cleanUpPromise\<close> of its first line, the computation of the location, the
  existence check, the fetch, and its end with the location or an error.
\<close>

datatype 'o task =
    AtAwait IGalleryExtension 'o
  | AtLocation IGalleryExtension 'o
  | AtExists IGalleryExtension URI 'o
  | AtDownload IGalleryExtension URI 'o
  | Returned URI
  | Thrown error

text \<open>One statement of a call past its first line; a finished call stays as it is.\<close>

fun task_step ::
    "ExtensionsDownloader \<Rightarrow> string \<Rightarrow> 'o world \<Rightarrow> 'o task \<Rightarrow> 'o task \<times> 'o world" where
  "task_step this uuid w (AtAwait extension operation) = (AtLocation extension operation, w)"
| "task_step this uuid w (AtLocation extension operation) =
     (AtExists extension
        (joinPath (extensionsDownloadDir this) (getName (cache this) uuid extension)) operation, w)"
| "task_step this uuid w (AtExists extension location operation) =
     (case fileService_exists w location of
        Inl e \<Rightarrow> (Thrown e, w)
      | Inr True \<Rightarrow> (Returned location, w)
      | Inr False \<Rightarrow> (AtDownload extension location operation, w))"
| "task_step this uuid w (AtDownload extension location operation) =
     (case extensionGalleryService_download w extension location operation of
        (Inl e, w') \<Rightarrow> (Thrown e, w')
      | (Inr _, w') \<Rightarrow> (Returned location, w'))"
| "task_step this uuid w (Returned location) = (Returned location, w)"
| "task_step this uuid w (Thrown e) = (Thrown e, w)"

text \<open>Whether a call has gone past its first line.\<close>

fun past_await :: "'o task \<Rightarrow> bool" where
  "past_await (AtAwait extension operation) = False"
| "past_await t = True"

text \<open>
  The downloader with calls in progress: the promise, the deletions that the pass has
  issued and that have not settled yet, whether one of its deletions has failed, the
  world, and the calls.
\<close>

record 'o system =
  cleanUpPromise :: promise
  in_flight :: "URI list"
  rejected :: bool
  store :: "'o world"
  tasks :: "'o task list"

text \<open>
  The steps: a caller enters \<open>downloadExtension\<close>; a deletion issued by the pass settles,
  removing its location or failing; the pass returns and the promise resolves, which
  \<open>await Promise.all\<close> allows once every deletion has settled or as soon as one has failed;
  a call waiting at its first line goes on, which needs the promise resolved; a call past
  its first line runs its next statement.
\<close>

inductive step :: "ExtensionsDownloader \<Rightarrow> 'o system \<Rightarrow> 'o system \<Rightarrow> bool"
  for this :: ExtensionsDownloader where
  enter: "step this s (s\<lparr>tasks := tasks s @ [AtAwait extension operation]\<rparr>)"
| pass_del:
    "location \<in> set (in_flight s) \<Longrightarrow> fileService_del (store s) location = (r, w') \<Longrightarrow>
     step this s (s\<lparr>in_flight := remove1 location (in_flight s),
                    rejected := (rejected s \<or> isl r), store := w'\<rparr>)"
| settle:
    "cleanUpPromise s = Pending \<Longrightarrow> in_flight s = [] \<or> rejected s \<Longrightarrow>
     step this s (s\<lparr>cleanUpPromise := Resolved\<rparr>)"
| resume:
    "i < length (tasks s) \<Longrightarrow> tasks s ! i = AtAwait extension operation \<Longrightarrow>
     cleanUpPromise s = Resolved \<Longrightarrow>
     step this s (s\<lparr>tasks := (tasks s)[i := fst (task_step this uuid (store s) (tasks s ! i))]\<rparr>)"
| run:
    "i < length (tasks s) \<Longrightarrow> past_await (tasks s ! i) \<Longrightarrow>
     task_step this uuid (store s) (tasks s ! i) = (t', w') \<Longrightarrow>
     step this s (s\<lparr>tasks := (tasks s)[i := t'], store := w'\<rparr>)"

inductive reachable :: "ExtensionsDownloader \<Rightarrow> 'o system \<Rightarrow> 'o system \<Rightarrow> bool"
  for this :: ExtensionsDownloader and s0 :: "'o system" where
  init: "reachable this s0 s0"
| next_step: "reachable this s0 s \<Longrightarrow> step this s s' \<Longrightarrow> reachable this s0 s'"

section \<open>Lemmas: the naming pattern\<close>

lemma splits_iff: "(u, v) \<in> set (splits s) \<longleftrightarrow> s = u @ v"
proof
  assume "(u, v) \<in> set (splits s)"
  then have "(u, v) \<in> (\<lambda>k. (take k s, drop k s)) ` set (rev [0..<Suc (length s)])"
    unfolding splits_def set_map .
  then obtain k where "(u, v) = (take k s, drop k s)" by blast
  then show "s = u @ v" by simp
next
  assume s: "s = u @ v"
  have "length u \<in> set (rev [0..<Suc (length s)])" using s by simp
  moreover have "(u, v) = (\<lambda>k. (take k s, drop k s)) (length u)" using s by simp
  ultimately show "(u, v) \<in> set (splits s)"
    unfolding splits_def set_map by (rule image_eqI[rotated])
qed

lemma regex_match_Cat:
  "regex_match (Cat a b) s \<longleftrightarrow> (\<exists>u v. s = u @ v \<and> regex_match a u \<and> regex_match b v)"
proof -
  have "regex_match (Cat a b) s \<longleftrightarrow> (\<exists>(u, v) \<in> set (splits s). regex_match a u \<and> regex_match b v)"
    by (simp add: list_ex_iff)
  also have "\<dots> \<longleftrightarrow> (\<exists>u v. s = u @ v \<and> regex_match a u \<and> regex_match b v)"
    using splits_iff[of _ _ s] by blast
  finally show ?thesis .
qed

lemma toLowerCase_char_cases:
  "toLowerCase_char c = c \<or> (97 \<le> (of_char (toLowerCase_char c) :: nat) \<and> 65 \<le> (of_char c :: nat))"
proof (cases "toLowerCase_char c = c")
  case True then show ?thesis by simp
next
  case False
  define n where "n = (of_char c :: nat)"
  from False have r: "(65 \<le> n \<and> n \<le> 90) \<or> (192 \<le> n \<and> n \<le> 222 \<and> n \<noteq> 215)"
    and t: "toLowerCase_char c = char_of (n + 32)"
    by (auto simp: toLowerCase_char_def Let_def n_def split: if_splits)
  have "(of_char (char_of (n + 32) :: char) :: nat) = (n + 32) mod 256" by simp
  with r have "(of_char (char_of (n + 32) :: char) :: nat) = n + 32" by auto
  with r t show ?thesis by (auto simp: n_def)
qed

lemma toLowerCase_char_low:
  assumes "(of_char d :: nat) < 65"
  shows "toLowerCase_char c = d \<longleftrightarrow> c = d"
proof
  assume "toLowerCase_char c = d"
  with toLowerCase_char_cases[of c] assms show "c = d" by auto
next
  assume "c = d"
  with assms show "toLowerCase_char c = d" by (simp add: toLowerCase_char_def Let_def)
qed

lemma toLowerCase_char_dot: "toLowerCase_char c = CHR ''.'' \<longleftrightarrow> c = CHR ''.''"
  by (rule toLowerCase_char_low) simp

lemma toLowerCase_char_digit: "digit c \<Longrightarrow> toLowerCase_char c = c"
  by (auto simp: digit_def toLowerCase_char_def)

declare regex_match.simps(3) [simp del]

lemma regex_match_Lit_Cat:
  "regex_match (Cat (Lit c) r) s \<longleftrightarrow> (\<exists>t. s = c # t \<and> regex_match r t)"
  by (simp add: regex_match_Cat)

lemma regex_match_Plus_Cat:
  "regex_match (Cat (Plus P) r) s \<longleftrightarrow>
     (\<exists>u t. s = u @ t \<and> u \<noteq> [] \<and> (\<forall>x\<in>set u. P x) \<and> regex_match r t)"
  by (simp add: regex_match_Cat list_all_iff)

lemma regex_match_id_group:
  "regex_match id_group g \<longleftrightarrow>
     (\<exists>p q. g = p @ CHR ''.'' # q \<and> p \<noteq> [] \<and> CHR ''.'' \<notin> set p \<and> q \<noteq> [] \<and> (\<forall>c\<in>set q. any_char c))"
  unfolding id_group_def regex_match_Plus_Cat regex_match_Lit_Cat
  by (simp add: list_all_iff not_dot_def) blast

lemma regex_match_version_group:
  "regex_match version_group v \<longleftrightarrow>
     (\<exists>a b c. v = a @ CHR ''.'' # b @ CHR ''.'' # c \<and> a \<noteq> [] \<and> b \<noteq> [] \<and> c \<noteq> [] \<and>
        (\<forall>x\<in>set a. digit x) \<and> (\<forall>x\<in>set b. digit x) \<and> (\<forall>x\<in>set c. digit x))"
  unfolding version_group_def regex_match_Plus_Cat regex_match_Lit_Cat
  by (simp add: list_all_iff) blast

lemma digit_not_dash: "digit c \<Longrightarrow> c \<noteq> CHR ''-''"
  by (auto simp: digit_def)

lemma version_no_dash: "regex_match version_group v \<Longrightarrow> CHR ''-'' \<notin> set v"
  unfolding regex_match_version_group using digit_not_dash by fastforce

lemma first_cut_unique:
  "c \<notin> set xs \<Longrightarrow> c \<notin> set xs' \<Longrightarrow> xs @ c # ys = xs' @ c # ys' \<Longrightarrow> xs = xs' \<and> ys = ys'"
proof (induction xs arbitrary: xs')
  case Nil
  then show ?case by (cases xs') auto
next
  case (Cons a xs)
  then show ?case by (cases xs') auto
qed

lemma last_cut_unique:
  assumes "a @ c # b = a' @ c # b'" "c \<notin> set b" "c \<notin> set b'"
  shows "a = a' \<and> b = b'"
proof -
  have "rev (a @ c # b) = rev (a' @ c # b')" using assms(1) by simp
  then have "rev b @ c # rev a = rev b' @ c # rev a'" by simp
  moreover have "c \<notin> set (rev b)" "c \<notin> set (rev b')" using assms by simp_all
  ultimately have "rev b = rev b' \<and> rev a = rev a'"
    by (rule first_cut_unique[rotated 2])
  then show ?thesis by simp
qed

lemma exec_candidates:
  "(m1, m2) \<in> set (map (\<lambda>k. (take k nm, drop (Suc k) nm))
          (filter (\<lambda>k. nm ! k = CHR ''-'') (rev [0..<length nm])))
   \<longleftrightarrow> nm = m1 @ CHR ''-'' # m2"
proof
  assume "(m1, m2) \<in> set (map (\<lambda>k. (take k nm, drop (Suc k) nm))
          (filter (\<lambda>k. nm ! k = CHR ''-'') (rev [0..<length nm])))"
  then obtain k where k: "k < length nm" "nm ! k = CHR ''-''"
      "m1 = take k nm" "m2 = drop (Suc k) nm"
    by auto
  from k(1) have "nm = take k nm @ nm ! k # drop (Suc k) nm"
    by (rule id_take_nth_drop)
  with k show "nm = m1 @ CHR ''-'' # m2" by simp
next
  assume n: "nm = m1 @ CHR ''-'' # m2"
  then have "length m1 < length nm" "nm ! length m1 = CHR ''-''"
    "m1 = take (length m1) nm" "m2 = drop (Suc (length m1)) nm"
    by simp_all
  then show "(m1, m2) \<in> set (map (\<lambda>k. (take k nm, drop (Suc k) nm))
          (filter (\<lambda>k. nm ! k = CHR ''-'') (rev [0..<length nm])))"
    by (simp add: image_iff) blast
qed

lemma find_SomeD: "find P xs = Some x \<Longrightarrow> x \<in> set xs \<and> P x"
  by (induction xs) (auto split: if_splits)

lemma exec_Some_iff:
  "ExtensionIdVersionRegex_exec nm = Some (m1, m2) \<longleftrightarrow>
     nm = m1 @ CHR ''-'' # m2 \<and> regex_match id_group m1 \<and> regex_match version_group m2"
proof
  assume "ExtensionIdVersionRegex_exec nm = Some (m1, m2)"
  then have "(m1, m2) \<in> set (map (\<lambda>k. (take k nm, drop (Suc k) nm))
          (filter (\<lambda>k. nm ! k = CHR ''-'') (rev [0..<length nm])))"
    and "regex_match id_group m1 \<and> regex_match version_group m2"
    unfolding ExtensionIdVersionRegex_exec_def by (auto dest!: find_SomeD)
  then show "nm = m1 @ CHR ''-'' # m2 \<and> regex_match id_group m1 \<and> regex_match version_group m2"
    by (simp only: exec_candidates)
next
  assume a: "nm = m1 @ CHR ''-'' # m2 \<and> regex_match id_group m1 \<and> regex_match version_group m2"
  let ?cs = "map (\<lambda>k. (take k nm, drop (Suc k) nm))
          (filter (\<lambda>k. nm ! k = CHR ''-'') (rev [0..<length nm]))"
  let ?P = "\<lambda>(m1, m2). regex_match id_group m1 \<and> regex_match version_group m2"
  from a have "(m1, m2) \<in> set ?cs" by (simp only: exec_candidates)
  with a have "find ?P ?cs \<noteq> None" unfolding find_None_iff by blast
  then obtain n1 n2 where f: "find ?P ?cs = Some (n1, n2)" by fastforce
  then have "(n1, n2) \<in> set ?cs" and m: "regex_match id_group n1 \<and> regex_match version_group n2"
    by (auto dest!: find_SomeD)
  then have "nm = n1 @ CHR ''-'' # n2" by (simp only: exec_candidates)
  with a have "m1 @ CHR ''-'' # m2 = n1 @ CHR ''-'' # n2" by simp
  moreover have "CHR ''-'' \<notin> set m2" "CHR ''-'' \<notin> set n2"
    using a m by (simp_all add: version_no_dash)
  ultimately have "m1 = n1 \<and> m2 = n2" by (rule last_cut_unique)
  with f show "ExtensionIdVersionRegex_exec nm = Some (m1, m2)"
    by (simp add: ExtensionIdVersionRegex_exec_def)
qed

lemma id_group_nonempty: "regex_match id_group m \<Longrightarrow> m \<noteq> []"
  by (auto simp: regex_match_id_group)

lemma version_group_nonempty: "regex_match version_group m \<Longrightarrow> m \<noteq> []"
  by (auto simp: regex_match_version_group)

lemma parse_Some_iff:
  "parse nm = Some e \<longleftrightarrow>
     nm = key e \<and> regex_match id_group (ext_id e) \<and> regex_match version_group (version e)"
proof
  assume p: "parse nm = Some e"
  then obtain m1 m2 where x: "ExtensionIdVersionRegex_exec nm = Some (m1, m2)"
    and e: "e = new_ExtensionIdentifierWithVersion m1 m2"
    by (auto simp: parse_def split: option.splits if_splits)
  from x have "nm = m1 @ CHR ''-'' # m2 \<and> regex_match id_group m1 \<and> regex_match version_group m2"
    by (simp only: exec_Some_iff)
  with e show "nm = key e \<and> regex_match id_group (ext_id e) \<and> regex_match version_group (version e)"
    by (simp add: key_def new_ExtensionIdentifierWithVersion_def)
next
  assume a: "nm = key e \<and> regex_match id_group (ext_id e) \<and> regex_match version_group (version e)"
  then have "ExtensionIdVersionRegex_exec nm = Some (ext_id e, version e)"
    unfolding exec_Some_iff by (simp add: key_def)
  with a show "parse nm = Some e"
    by (simp add: parse_def new_ExtensionIdentifierWithVersion_def id_group_nonempty version_group_nonempty)
qed

lemma parse_None_iff:
  "parse nm = None \<longleftrightarrow>
     \<not> (\<exists>m1 m2. nm = m1 @ CHR ''-'' # m2 \<and> regex_match id_group m1 \<and> regex_match version_group m2)"
proof -
  have "parse nm \<noteq> None \<longleftrightarrow> (\<exists>e. parse nm = Some e)" by auto
  also have "\<dots> \<longleftrightarrow> (\<exists>e. nm = key e \<and> regex_match id_group (ext_id e) \<and> regex_match version_group (version e))"
    by (simp only: parse_Some_iff)
  also have "\<dots> \<longleftrightarrow> (\<exists>m1 m2. nm = m1 @ CHR ''-'' # m2 \<and> regex_match id_group m1 \<and> regex_match version_group m2)"
  proof
    assume "\<exists>e. nm = key e \<and> regex_match id_group (ext_id e) \<and> regex_match version_group (version e)"
    then show "\<exists>m1 m2. nm = m1 @ CHR ''-'' # m2 \<and> regex_match id_group m1 \<and> regex_match version_group m2"
      by (auto simp: key_def)
  next
    assume "\<exists>m1 m2. nm = m1 @ CHR ''-'' # m2 \<and> regex_match id_group m1 \<and> regex_match version_group m2"
    then obtain m1 m2 where "nm = m1 @ CHR ''-'' # m2 \<and> regex_match id_group m1 \<and> regex_match version_group m2"
      by blast
    then have "nm = key \<lparr>ext_id = m1, version = m2\<rparr> \<and> regex_match id_group (ext_id \<lparr>ext_id = m1, version = m2\<rparr>)
       \<and> regex_match version_group (version \<lparr>ext_id = m1, version = m2\<rparr>)"
      by (simp add: key_def)
    then show "\<exists>e. nm = key e \<and> regex_match id_group (ext_id e) \<and> regex_match version_group (version e)"
      by blast
  qed
  finally show ?thesis by blast
qed

lemma toLowerCase_char_any: "any_char (toLowerCase_char c) \<longleftrightarrow> any_char c"
proof -
  have "toLowerCase_char c = CHR 0x0A \<longleftrightarrow> c = CHR 0x0A"
    by (rule toLowerCase_char_low) simp
  moreover have "toLowerCase_char c = CHR 0x0D \<longleftrightarrow> c = CHR 0x0D"
    by (rule toLowerCase_char_low) simp
  ultimately show ?thesis by (simp add: any_char_def)
qed

lemma toLowerCase_dot_free: "CHR ''.'' \<in> set (toLowerCase s) \<longleftrightarrow> CHR ''.'' \<in> set s"
proof (induction s)
  case Nil
  show ?case by (simp add: toLowerCase_def)
next
  case (Cons c s)
  have "CHR ''.'' = toLowerCase_char c \<longleftrightarrow> CHR ''.'' = c"
    using toLowerCase_char_dot[of c] by (simp add: eq_commute)
  with Cons show ?case by (simp add: toLowerCase_def)
qed

lemma toLowerCase_append: "toLowerCase (a @ b) = toLowerCase a @ toLowerCase b"
  by (simp add: toLowerCase_def)

lemma toLowerCase_Cons: "toLowerCase (c # s) = toLowerCase_char c # toLowerCase s"
  by (simp add: toLowerCase_def)

lemma toLowerCase_digits: "\<forall>x\<in>set s. digit x \<Longrightarrow> toLowerCase s = s"
  by (simp add: toLowerCase_def toLowerCase_char_digit map_idI)

lemma toLowerCase_dot_char: "toLowerCase_char CHR ''.'' = CHR ''.''"
  by (simp add: toLowerCase_char_dot)

lemma toLowerCase_dash_char: "toLowerCase_char CHR ''-'' = CHR ''-''"
  by (simp add: toLowerCase_char_def)

lemma toLowerCase_id_group:
  assumes "regex_match id_group i"
  shows "regex_match id_group (toLowerCase i)"
proof -
  from assms obtain p q where i: "i = p @ CHR ''.'' # q" "p \<noteq> []" "CHR ''.'' \<notin> set p"
      "q \<noteq> []" "\<forall>c\<in>set q. any_char c"
    unfolding regex_match_id_group by blast
  have "toLowerCase i = toLowerCase p @ CHR ''.'' # toLowerCase q"
    by (simp add: i(1) toLowerCase_append toLowerCase_Cons toLowerCase_dot_char)
  moreover have "toLowerCase p \<noteq> []" "toLowerCase q \<noteq> []"
    using i by (simp_all add: toLowerCase_def)
  moreover have "CHR ''.'' \<notin> set (toLowerCase p)"
    using i(3) by (simp add: toLowerCase_dot_free)
  moreover have "\<forall>c\<in>set (toLowerCase q). any_char c"
    using i(5) by (simp add: toLowerCase_def toLowerCase_char_any)
  ultimately show ?thesis
    unfolding regex_match_id_group by blast
qed

lemma toLowerCase_version:
  assumes "regex_match version_group v"
  shows "toLowerCase v = v"
proof -
  from assms obtain a b c where v: "v = a @ CHR ''.'' # b @ CHR ''.'' # c"
      "\<forall>x\<in>set a. digit x" "\<forall>x\<in>set b. digit x" "\<forall>x\<in>set c. digit x"
    unfolding regex_match_version_group by blast
  show ?thesis
    by (simp add: v toLowerCase_append toLowerCase_Cons toLowerCase_dot_char toLowerCase_digits)
qed

lemma getName_enabled:
  "limit \<noteq> 0 \<Longrightarrow> getName limit uuid x =
     toLowerCase (gallery_id x) @ CHR ''-'' # toLowerCase (gallery_version x)"
  by (simp add: getName_def key_def new_ExtensionIdentifierWithVersion_def toLowerCase_append
      toLowerCase_Cons toLowerCase_dash_char)

lemma parse_getName:
  assumes "limit \<noteq> 0" "regex_match id_group (gallery_id x)"
    "regex_match version_group (gallery_version x)"
  shows "parse (getName limit uuid x) =
     Some \<lparr>ext_id = toLowerCase (gallery_id x), version = gallery_version x\<rparr>"
  unfolding parse_Some_iff
  using assms by (simp add: getName_enabled key_def toLowerCase_version toLowerCase_id_group)

lemma parse_getName_no_dot:
  assumes "limit \<noteq> 0" "CHR ''.'' \<notin> set (gallery_id x)"
    "regex_match version_group (gallery_version x)"
  shows "parse (getName limit uuid x) = None"
proof (rule ccontr)
  assume "parse (getName limit uuid x) \<noteq> None"
  then obtain e where "parse (getName limit uuid x) = Some e" by blast
  then have e: "getName limit uuid x = key e" "regex_match id_group (ext_id e)"
      "regex_match version_group (version e)"
    by (simp_all only: parse_Some_iff)
  from e(1) have "toLowerCase (gallery_id x) @ CHR ''-'' # gallery_version x
      = ext_id e @ CHR ''-'' # version e"
    using assms by (simp add: getName_enabled key_def toLowerCase_version)
  moreover have "CHR ''-'' \<notin> set (gallery_version x)" "CHR ''-'' \<notin> set (version e)"
    using assms(3) e(3) by (simp_all add: version_no_dash)
  ultimately have "toLowerCase (gallery_id x) = ext_id e \<and> gallery_version x = version e"
    by (rule last_cut_unique)
  moreover have "CHR ''.'' \<in> set (ext_id e)"
    using e(2) unfolding regex_match_id_group by auto
  ultimately have "CHR ''.'' \<in> set (toLowerCase (gallery_id x))" by simp
  with assms(2) show False by (simp only: toLowerCase_dot_free)
qed

section \<open>Lemmas: the reconciliation pass\<close>

lemma scan_children_eq:
  "scan_children cs td al =
     (td @ map resource (filter (\<lambda>s. parse (name s) = None) cs),
      al @ map (\<lambda>s. (the (parse (name s)), s)) (filter (\<lambda>s. parse (name s) \<noteq> None) cs))"
  by (induction cs arbitrary: td al) (auto split: option.splits)

lemma recognized_eq:
  "recognized cs = map (\<lambda>s. (the (parse (name s)), s)) (filter (\<lambda>s. parse (name s) \<noteq> None) cs)"
  by (simp add: recognized_def scan_children_eq)

lemma push_to_group_filter:
  assumes "distinct ks" "set ks \<subseteq> k ` set xs"
  shows "push_to_group k x (map (\<lambda>i. filter (\<lambda>y. k y = i) xs) ks) =
     (if k x \<in> set ks then map (\<lambda>i. filter (\<lambda>y. k y = i) (xs @ [x])) ks
      else map (\<lambda>i. filter (\<lambda>y. k y = i) xs) ks @ [[x]])"
  using assms
proof (induction ks)
  case Nil
  show ?case by simp
next
  case (Cons i ks)
  have ex: "list_ex (\<lambda>e. k e = k x) (filter (\<lambda>y. k y = i) xs) \<longleftrightarrow> i = k x"
    using Cons.prems(2) by (auto simp: list_ex_iff)
  show ?case
  proof (cases "i = k x")
    case True
    then have "k x \<notin> set ks" using Cons.prems(1) by simp
    then have "map (\<lambda>i. filter (\<lambda>y. k y = i) (xs @ [x])) ks = map (\<lambda>i. filter (\<lambda>y. k y = i) xs) ks"
      by (intro map_cong) auto
    with True ex show ?thesis by simp
  next
    case False
    moreover have "distinct ks" "set ks \<subseteq> k ` set xs" using Cons.prems by simp_all
    ultimately show ?thesis using ex Cons.IH by auto
  qed
qed

lemma groupByExtension_snoc:
  "groupByExtension (xs @ [x]) k = push_to_group k x (groupByExtension xs k)"
  by (simp add: groupByExtension_def)

lemma groupByExtension_eq:
  "groupByExtension xs k = map (\<lambda>i. filter (\<lambda>y. k y = i) xs) (rev (remdups (rev (map k xs))))"
proof (induction xs rule: rev_induct)
  case Nil
  show ?case by (simp add: groupByExtension_def)
next
  case (snoc x xs)
  let ?ks = "rev (remdups (rev (map k xs)))"
  have d: "distinct ?ks" "set ?ks \<subseteq> k ` set xs" by simp_all
  have "groupByExtension (xs @ [x]) k = push_to_group k x (map (\<lambda>i. filter (\<lambda>y. k y = i) xs) ?ks)"
    by (simp only: groupByExtension_snoc snoc.IH)
  also have "\<dots> = (if k x \<in> set ?ks then map (\<lambda>i. filter (\<lambda>y. k y = i) (xs @ [x])) ?ks
      else map (\<lambda>i. filter (\<lambda>y. k y = i) xs) ?ks @ [[x]])"
    using d by (rule push_to_group_filter)
  also have "\<dots> = map (\<lambda>i. filter (\<lambda>y. k y = i) (xs @ [x])) (rev (remdups (rev (map k (xs @ [x])))))"
  proof (cases "k x \<in> set ?ks")
    case True
    then show ?thesis by simp
  next
    case False
    then have "k x \<notin> k ` set xs" by simp
    then have "\<forall>y\<in>set xs. k y \<noteq> k x" by (metis imageI)
    then have "filter (\<lambda>y. k y = k x) xs = []" by (simp add: filter_empty_conv)
    moreover have "map (\<lambda>i. filter (\<lambda>y. k y = i) (xs @ [x])) ?ks = map (\<lambda>i. filter (\<lambda>y. k y = i) xs) ?ks"
      using False by (intro map_cong) auto
    ultimately show ?thesis using False by simp
  qed
  finally show ?case .
qed


lemma set_insert_newest: "set (insert_newest cmp x ys) = insert x (set ys)"
  by (induction ys) auto

lemma mset_insert_newest: "mset (insert_newest cmp x ys) = add_mset x (mset ys)"
  by (induction ys) auto

lemma mset_newest_first: "mset (newest_first cmp xs) = mset xs"
  by (induction xs) (simp_all add: newest_first_def mset_insert_newest)

lemma set_newest_first: "set (newest_first cmp xs) = set xs"
  by (metis mset_newest_first set_mset_mset)

lemma newest_first_Nil_iff: "newest_first cmp xs = [] \<longleftrightarrow> xs = []"
  by (metis mset_newest_first mset_zero_iff)

lemma sorted_insert_newest:
  assumes tot: "\<And>a b. cmp a b \<le> 0 \<or> cmp b a \<le> 0"
    and trans: "\<And>a b c. cmp a b \<le> 0 \<Longrightarrow> cmp b c \<le> 0 \<Longrightarrow> cmp a c \<le> 0"
  shows "sorted_wrt (\<lambda>a b. cmp a b \<le> 0) ys \<Longrightarrow> sorted_wrt (\<lambda>a b. cmp a b \<le> 0) (insert_newest cmp x ys)"
proof (induction ys)
  case Nil
  show ?case by simp
next
  case (Cons y ys)
  show ?case
  proof (cases "cmp x y \<le> 0")
    case True
    with Cons.prems trans show ?thesis by auto
  next
    case False
    with tot have "cmp y x \<le> 0" by blast
    with False Cons show ?thesis by (auto simp: set_insert_newest)
  qed
qed

lemma sorted_newest_first:
  assumes tot: "\<And>a b. cmp a b \<le> 0 \<or> cmp b a \<le> 0"
    and trans: "\<And>a b c. cmp a b \<le> 0 \<Longrightarrow> cmp b c \<le> 0 \<Longrightarrow> cmp a c \<le> 0"
  shows "sorted_wrt (\<lambda>a b. cmp a b \<le> 0) (newest_first cmp xs)"
proof (induction xs)
  case Nil
  show ?case by (simp add: newest_first_def)
next
  case (Cons x xs)
  have "newest_first cmp (x # xs) = insert_newest cmp x (newest_first cmp xs)"
    by (simp add: newest_first_def)
  with Cons sorted_insert_newest[of cmp, OF tot trans] show ?case by simp
qed

lemma hd_newest_first_least:
  assumes tot: "\<And>a b. cmp a b \<le> 0 \<or> cmp b a \<le> 0"
    and trans: "\<And>a b c. cmp a b \<le> 0 \<Longrightarrow> cmp b c \<le> 0 \<Longrightarrow> cmp a c \<le> 0"
    and x: "x \<in> set xs"
  shows "cmp (hd (newest_first cmp xs)) x \<le> 0"
proof -
  from x have "x \<in> set (newest_first cmp xs)" by (simp add: set_newest_first)
  moreover have "sorted_wrt (\<lambda>a b. cmp a b \<le> 0) (newest_first cmp xs)"
    using tot trans by (rule sorted_newest_first)
  moreover have "cmp x x \<le> 0" using tot by blast
  ultimately show ?thesis
    by (cases "newest_first cmp xs") auto
qed

lemma compareIdentifiers_le: "compareIdentifiers a b \<le> 0 \<longleftrightarrow> a \<le> b"
  by (simp add: compareIdentifiers_def)

lemma compareIdentifiers_eq: "compareIdentifiers a b = 0 \<longleftrightarrow> a = b"
  by (simp add: compareIdentifiers_def)

lemma compare_le:
  "compare_fields a b \<le> 0 \<longleftrightarrow>
     (case (SemVer_fields a, SemVer_fields b) of ((ma, mi, pa), (mb, ni, pb)) \<Rightarrow>
        ma < mb \<or> (ma = mb \<and> (mi < ni \<or> (mi = ni \<and> pa \<le> pb))))"
  by (auto simp: compare_fields_def compareMain_def compareIdentifiers_def split: prod.splits)

lemma compare_total: "compare_fields a b \<le> 0 \<or> compare_fields b a \<le> 0"
  unfolding compare_le by (auto split: prod.splits)

lemma compare_trans: "compare_fields a b \<le> 0 \<Longrightarrow> compare_fields b c \<le> 0 \<Longrightarrow> compare_fields a c \<le> 0"
  unfolding compare_le by (auto split: prod.splits)

lemma hd_sorted_newest:
  assumes "x \<in> set p"
  shows "compare_fields (version (fst x))
    (version (fst (hd (newest_first (\<lambda>a b. rcompare_fields (version (fst a)) (version (fst b))) p)))) \<le> 0"
proof -
  let ?cmp = "\<lambda>a b. rcompare_fields (version (fst a)) (version (fst b))"
  have tot: "\<And>a b. ?cmp a b \<le> 0 \<or> ?cmp b a \<le> 0"
    using compare_total by (simp add: rcompare_fields_def)
  have trans: "\<And>a b c. ?cmp a b \<le> 0 \<Longrightarrow> ?cmp b c \<le> 0 \<Longrightarrow> ?cmp a c \<le> 0"
    using compare_trans unfolding rcompare_fields_def by blast
  have "?cmp (hd (newest_first ?cmp p)) x \<le> 0"
    using tot trans assms by (rule hd_newest_first_least[of ?cmp x p])
  then show ?thesis by (simp add: rcompare_fields_def)
qed

lemma SemVer_valid: "valid_version v \<Longrightarrow> SemVer v = Inr (SemVer_fields v)"
  by (auto simp: valid_version_def SemVer_def Let_def split: if_splits)


lemma compare_valid:
  "valid_version a \<Longrightarrow> valid_version b \<Longrightarrow> compare a b = Inr (compare_fields a b)"
  by (simp add: compare_def SemVer_valid compare_fields_def)


lemma compare_Inr_valid: "compare a b = Inr c \<Longrightarrow> valid_version a \<and> valid_version b"
  by (auto simp: compare_def valid_version_def split: sum.splits)


lemma rcompare_valid:
  "valid_version a \<Longrightarrow> valid_version b \<Longrightarrow> rcompare a b = Inr (rcompare_fields a b)"
  by (simp add: rcompare_def rcompare_fields_def compare_valid)


lemma rcompare_Inr_valid: "rcompare a b = Inr c \<Longrightarrow> valid_version a \<and> valid_version b"
  unfolding rcompare_def using compare_Inr_valid by blast

lemma insert_sorted_total:
  "\<forall>y\<in>set ys. cmp x y = Inr (tcmp x y) \<Longrightarrow>
     insert_sorted cmp x ys = Inr (insert_newest tcmp x ys)"
  by (induction ys) auto


lemma Array_sort_total:
  "\<forall>x\<in>set xs. \<forall>y\<in>set xs. cmp x y = Inr (tcmp x y) \<Longrightarrow>
     Array_sort cmp xs = Inr (newest_first tcmp xs)"
proof (induction xs)
  case Nil
  show ?case by (simp add: newest_first_def)
next
  case (Cons x xs)
  then have "Array_sort cmp xs = Inr (newest_first tcmp xs)" by simp
  moreover have "\<forall>y\<in>set (newest_first tcmp xs). cmp x y = Inr (tcmp x y)"
    using Cons.prems by (simp add: set_newest_first)
  then have "insert_sorted cmp x (newest_first tcmp xs) =
      Inr (insert_newest tcmp x (newest_first tcmp xs))"
    by (rule insert_sorted_total)
  ultimately show ?case by (simp add: newest_first_def)
qed


lemma Array_sort_short:
  "length xs < 2 \<Longrightarrow> Array_sort cmp xs = Inr xs \<and> newest_first tcmp xs = xs"
proof (cases xs)
  case Nil
  then show ?thesis by (simp add: newest_first_def)
next
  case (Cons x ys)
  assume "length xs < 2"
  with Cons have "ys = []" by simp
  with Cons show ?thesis by (simp add: newest_first_def)
qed

lemma set_insert_sorted:
  "insert_sorted cmp x ys = Inr zs \<Longrightarrow> set zs = insert x (set ys)"
proof (induction ys arbitrary: zs)
  case Nil
  then show ?case by auto
next
  case (Cons y ys)
  show ?case
  proof (cases "cmp x y")
    case (Inl e)
    with Cons.prems show ?thesis by simp
  next
    case (Inr c)
    show ?thesis
    proof (cases "c \<le> 0")
      case True
      with Inr Cons.prems show ?thesis by auto
    next
      case False
      show ?thesis
      proof (cases "insert_sorted cmp x ys")
        case (Inl e)
        with Inr False Cons.prems show ?thesis by simp
      next
        case r: (Inr zs')
        with Inr False Cons.prems have "zs = y # zs'" by simp
        moreover from r have "set zs' = insert x (set ys)" by (rule Cons.IH)
        ultimately show ?thesis by auto
      qed
    qed
  qed
qed

lemma set_Array_sort: "Array_sort cmp xs = Inr s \<Longrightarrow> set s = set xs"
proof (induction xs arbitrary: s)
  case Nil
  then show ?case by simp
next
  case (Cons x xs)
  show ?case
  proof (cases "Array_sort cmp xs")
    case (Inl e)
    with Cons.prems show ?thesis by simp
  next
    case (Inr s')
    with Cons.prems have "insert_sorted cmp x s' = Inr s" by simp
    then have "set s = insert x (set s')" by (rule set_insert_sorted)
    moreover from Inr have "set s' = set xs" by (rule Cons.IH)
    ultimately show ?thesis by simp
  qed
qed

lemma insert_sorted_compares:
  "insert_sorted cmp x (y # ys) = Inr zs \<Longrightarrow> \<exists>c. cmp x y = Inr c"
  by (cases "cmp x y") simp_all

lemma Array_sort_Inr_valid:
  assumes "Array_sort (\<lambda>a b. rcompare (f a) (f b)) xs = Inr s"
  shows "length xs < 2 \<or> (\<forall>x\<in>set xs. valid_version (f x))"
  using assms
proof (induction xs arbitrary: s)
  case Nil
  show ?case by simp
next
  case (Cons x xs)
  let ?cmp = "\<lambda>a b. rcompare (f a) (f b)"
  from Cons.prems obtain s' where s': "Array_sort ?cmp xs = Inr s'"
    and i: "insert_sorted ?cmp x s' = Inr s"
    by (auto split: sum.splits)
  show ?case
  proof (cases xs)
    case Nil
    then show ?thesis by simp
  next
    case (Cons y ys)
    from s' have set: "set s' = set xs" by (rule set_Array_sort)
    with Cons obtain z zs where z: "s' = z # zs" by (cases s') auto
    with i obtain c where "rcompare (f x) (f z) = Inr c"
      using insert_sorted_compares[of ?cmp x z zs s] by auto
    then have v: "valid_version (f x)" "valid_version (f z)"
      using rcompare_Inr_valid by blast+
    have "\<forall>u\<in>set xs. valid_version (f u)"
    proof (cases "length xs < 2")
      case True
      with Cons have "xs = [y]" by simp
      with set z have "z = y" by auto
      with v(2) \<open>xs = [y]\<close> show ?thesis by simp
    next
      case False
      with Cons.IH[OF s'] show ?thesis by blast
    qed
    with v(1) show ?thesis by simp
  qed
qed

lemma Array_sort_versions:
  assumes "length p < 2 \<or> list_all (\<lambda>e. valid_version (version (fst e))) p"
  shows "Array_sort (\<lambda>a b. rcompare (version (fst a)) (version (fst b))) p =
     Inr (newest_first (\<lambda>a b. rcompare_fields (version (fst a)) (version (fst b))) p)"
proof (cases "length p < 2")
  case True
  then show ?thesis
    using Array_sort_short[of p "\<lambda>a b. rcompare (version (fst a)) (version (fst b))"
        "\<lambda>a b. rcompare_fields (version (fst a)) (version (fst b))"]
    by simp
next
  case False
  with assms have "\<forall>e\<in>set p. valid_version (version (fst e))" by (simp add: list_all_iff)
  then have "\<forall>x\<in>set p. \<forall>y\<in>set p. rcompare (version (fst x)) (version (fst y)) =
      Inr (rcompare_fields (version (fst x)) (version (fst y)))"
    by (simp add: rcompare_valid)
  then show ?thesis by (rule Array_sort_total)
qed

lemma Array_sort_throws:
  assumes "\<not> (length p < 2 \<or> list_all (\<lambda>e. valid_version (version (fst e))) p)"
  shows "\<exists>e. Array_sort (\<lambda>a b. rcompare (version (fst a)) (version (fst b))) p = Inl e"
proof (cases "Array_sort (\<lambda>a b. rcompare (version (fst a)) (version (fst b))) p")
  case (Inl e)
  then show ?thesis by blast
next
  case (Inr s)
  then have "length p < 2 \<or> (\<forall>x\<in>set p. valid_version (version (fst x)))"
    by (rule Array_sort_Inr_valid)
  with assms show ?thesis by (simp add: list_all_iff)
qed

lemma prune_groups_eq:
  assumes "\<forall>p\<in>set ps. p \<noteq> []"
    and "\<forall>p\<in>set ps. length p < 2 \<or> list_all (\<lambda>e. valid_version (version (fst e))) p"
  shows "prune_groups ps td d =
     Inr (td @ concat (map (\<lambda>p. map (\<lambda>e. resource (snd e))
                 (tl (newest_first (\<lambda>a b. rcompare_fields (version (fst a)) (version (fst b))) p))) ps),
          d @ map (\<lambda>p. resource (snd
                 (hd (newest_first (\<lambda>a b. rcompare_fields (version (fst a)) (version (fst b))) p)))) ps)"
  using assms
proof (induction ps arbitrary: td d)
  case Nil
  show ?case by simp
next
  case (Cons p ps)
  let ?s = "newest_first (\<lambda>a b. rcompare_fields (version (fst a)) (version (fst b))) p"
  from Cons.prems have "p \<noteq> []" by simp
  then have "?s \<noteq> []" by (simp add: newest_first_Nil_iff)
  then obtain newest outdated where s: "?s = newest # outdated" by (cases ?s) auto
  from Cons.prems have "length p < 2 \<or> list_all (\<lambda>e. valid_version (version (fst e))) p"
    by simp
  then have a: "Array_sort (\<lambda>a b. rcompare (version (fst a)) (version (fst b))) p = Inr ?s"
    by (rule Array_sort_versions)
  from Cons.prems have "\<forall>p\<in>set ps. p \<noteq> []"
    "\<forall>p\<in>set ps. length p < 2 \<or> list_all (\<lambda>e. valid_version (version (fst e))) p"
    by simp_all
  then show ?case using s a by (simp add: Cons.IH)
qed

lemma prune_groups_throws:
  assumes "\<exists>p\<in>set ps. \<not> (length p < 2 \<or> list_all (\<lambda>e. valid_version (version (fst e))) p)"
  shows "\<exists>e. prune_groups ps td d = Inl e"
  using assms
proof (induction ps arbitrary: td d)
  case Nil
  then show ?case by simp
next
  case (Cons p ps)
  show ?case
  proof (cases "Array_sort (\<lambda>a b. rcompare (version (fst a)) (version (fst b))) p")
    case (Inl e)
    then show ?thesis by simp
  next
    case (Inr s)
    then have "length p < 2 \<or> (\<forall>x\<in>set p. valid_version (version (fst x)))"
      by (rule Array_sort_Inr_valid)
    with Cons.prems have
      "\<exists>p\<in>set ps. \<not> (length p < 2 \<or> list_all (\<lambda>e. valid_version (version (fst e))) p)"
      by (auto simp: list_all_iff)
    then have "\<exists>e. prune_groups ps td' d' = Inl e" for td' d' by (rule Cons.IH)
    with Inr show ?thesis by (cases s) auto
  qed
qed

lemma groupByExtension_nonempty: "p \<in> set (groupByExtension xs k) \<Longrightarrow> p \<noteq> []"
proof -
  assume "p \<in> set (groupByExtension xs k)"
  then obtain i where "i \<in> set (map k xs)" "p = filter (\<lambda>y. k y = i) xs"
    unfolding groupByExtension_eq by auto
  then show "p \<noteq> []" by (auto simp: filter_empty_conv)
qed

lemma byExtension_nonempty: "p \<in> set (byExtension cs) \<Longrightarrow> p \<noteq> []"
  by (auto simp: byExtension_def newest_first_Nil_iff groupByExtension_nonempty)

lemma scan_children_recognized:
  "scan_children cs [] [] =
     (map resource (filter (\<lambda>s. parse (name s) = None) cs), recognized cs)"
  by (simp add: scan_children_eq recognized_eq)

lemma collect_groups_eq:
  assumes "comparable cs"
  shows "collect_groups cs =
     Inr (map resource (filter (\<lambda>s. parse (name s) = None) cs) @
            concat (map (\<lambda>p. map (\<lambda>e. resource (snd e)) (tl p)) (byExtension cs)),
          map (\<lambda>p. resource (snd (hd p))) (byExtension cs))"
proof -
  have "\<forall>p\<in>set (groupByExtension (recognized cs) (\<lambda>e. ext_id (fst e))). p \<noteq> []"
    using groupByExtension_nonempty by blast
  moreover have "\<forall>p\<in>set (groupByExtension (recognized cs) (\<lambda>e. ext_id (fst e))).
      length p < 2 \<or> list_all (\<lambda>e. valid_version (version (fst e))) p"
    using assms by (simp add: comparable_def list_all_iff)
  ultimately have "prune_groups (groupByExtension (recognized cs) (\<lambda>e. ext_id (fst e)))
      (map resource (filter (\<lambda>s. parse (name s) = None) cs)) [] =
     Inr (map resource (filter (\<lambda>s. parse (name s) = None) cs) @
            concat (map (\<lambda>p. map (\<lambda>e. resource (snd e)) (tl p)) (byExtension cs)),
          map (\<lambda>p. resource (snd (hd p))) (byExtension cs))"
    by (simp add: prune_groups_eq byExtension_def o_def)
  then show ?thesis
    by (simp add: collect_groups_def scan_children_recognized)
qed

lemma collect_groups_throws:
  assumes "\<not> comparable cs"
  shows "\<exists>e. collect_groups cs = Inl e"
proof -
  from assms have "\<exists>p\<in>set (groupByExtension (recognized cs) (\<lambda>e. ext_id (fst e))).
      \<not> (length p < 2 \<or> list_all (\<lambda>e. valid_version (version (fst e))) p)"
    by (simp add: comparable_def list_all_iff)
  then have "\<exists>e. prune_groups (groupByExtension (recognized cs) (\<lambda>e. ext_id (fst e)))
      (map resource (filter (\<lambda>s. parse (name s) = None) cs)) [] = Inl e"
    by (rule prune_groups_throws)
  then show ?thesis
    by (simp add: collect_groups_def scan_children_recognized)
qed

lemma collect_toDelete_eq:
  assumes "comparable cs"
  shows "collect_toDelete limit cs =
     Inr ((map resource (filter (\<lambda>s. parse (name s) = None) cs) @
            concat (map (\<lambda>p. map (\<lambda>e. resource (snd e)) (tl p)) (byExtension cs))) @
          take (length (byExtension cs) - limit) (map (\<lambda>p. resource (snd (hd p))) (byExtension cs)))"
proof -
  have "nat (max 0 (int (length (byExtension cs)) - int limit)) = length (byExtension cs) - limit"
    by simp
  then show ?thesis
    by (simp add: collect_toDelete_def collect_groups_eq[OF assms])
qed

lemma collect_toDelete_throws:
  assumes "\<not> comparable cs"
  shows "\<exists>e. collect_toDelete limit cs = Inl e"
  using collect_groups_throws[OF assms] by (auto simp: collect_toDelete_def)

lemma mset_concat_push_to_group:
  "mset (concat (push_to_group k x gs)) = add_mset x (mset (concat gs))"
  by (induction gs) auto

lemma mset_concat_groupByExtension: "mset (concat (groupByExtension xs k)) = mset xs"
  by (induction xs rule: rev_induct)
     (simp_all add: groupByExtension_snoc mset_concat_push_to_group, simp add: groupByExtension_def)

lemma mset_concat_sorted: "mset (concat (map (newest_first cmp) gs)) = mset (concat gs)"
  by (induction gs) (simp_all add: mset_newest_first)

lemma mset_concat_byExtension: "mset (concat (byExtension cs)) = mset (recognized cs)"
  by (simp add: byExtension_def mset_concat_sorted mset_concat_groupByExtension)

lemma mset_heads_tails:
  "\<forall>p\<in>set gs. p \<noteq> [] \<Longrightarrow>
     mset (concat (map (\<lambda>p. map f (tl p)) gs)) + mset (map (\<lambda>p. f (hd p)) gs) =
     mset (map f (concat gs))"
proof (induction gs)
  case Nil
  show ?case by simp
next
  case (Cons p gs)
  then obtain a as where "p = a # as" by (cases p) auto
  with Cons show ?case by simp
qed

lemma mset_collect:
  "mset (map resource (filter (\<lambda>s. parse (name s) = None) cs) @
          concat (map (\<lambda>p. map (\<lambda>e. resource (snd e)) (tl p)) (byExtension cs)) @
          map (\<lambda>p. resource (snd (hd p))) (byExtension cs)) =
   mset (map resource cs)"
proof -
  have "mset (concat (map (\<lambda>p. map (\<lambda>e. resource (snd e)) (tl p)) (byExtension cs))) +
        mset (map (\<lambda>p. resource (snd (hd p))) (byExtension cs)) =
        mset (map (\<lambda>e. resource (snd e)) (concat (byExtension cs)))"
    using byExtension_nonempty by (intro mset_heads_tails) blast
  also have "\<dots> = image_mset (\<lambda>e. resource (snd e)) (mset (concat (byExtension cs)))"
    by simp
  also have "\<dots> = mset (map (\<lambda>e. resource (snd e)) (recognized cs))"
    by (simp only: mset_concat_byExtension mset_map)
  also have "map (\<lambda>e. resource (snd e)) (recognized cs) =
      map resource (filter (\<lambda>s. parse (name s) \<noteq> None) cs)"
    by (simp add: recognized_eq o_def)
  finally have "mset (concat (map (\<lambda>p. map (\<lambda>e. resource (snd e)) (tl p)) (byExtension cs))) +
        mset (map (\<lambda>p. resource (snd (hd p))) (byExtension cs)) =
        mset (map resource (filter (\<lambda>s. parse (name s) \<noteq> None) cs))" .
  moreover have "mset (map resource (filter (\<lambda>s. parse (name s) = None) cs)) +
      mset (map resource (filter (\<lambda>s. parse (name s) \<noteq> None) cs)) = mset (map resource cs)"
    by (induction cs) auto
  ultimately show ?thesis by (simp add: add.assoc)
qed

lemma byExtension_members:
  assumes "p \<in> set (byExtension cs)"
  shows "set p = {x \<in> set (recognized cs). ext_id (fst x) = ext_id (fst (hd p))}"
proof -
  let ?k = "\<lambda>e :: ExtensionIdentifierWithVersion \<times> IFileStat. ext_id (fst e)"
  from assms obtain g where g: "g \<in> set (groupByExtension (recognized cs) ?k)"
      and p: "p = newest_first (\<lambda>a b. rcompare_fields (version (fst a)) (version (fst b))) g"
    by (auto simp: byExtension_def)
  from g obtain i where i: "g = filter (\<lambda>y. ?k y = i) (recognized cs)"
    unfolding groupByExtension_eq by auto
  have sp: "set p = {x \<in> set (recognized cs). ?k x = i}"
    by (auto simp: p set_newest_first i)
  have "p \<noteq> []" using assms by (rule byExtension_nonempty)
  then have "hd p \<in> set p" by simp
  with sp have "?k (hd p) = i" by blast
  with sp show ?thesis by simp
qed

lemma byExtension_covers:
  assumes "x \<in> set (recognized cs)"
  shows "\<exists>p\<in>set (byExtension cs). x \<in> set p"
proof -
  have "x \<in># mset (concat (byExtension cs))"
    using assms by (simp add: mset_concat_byExtension)
  then have "x \<in> set (concat (byExtension cs))" by simp
  then show ?thesis by auto
qed

lemma byExtension_order:
  "map (\<lambda>p. ext_id (fst (hd p))) (byExtension cs) =
     rev (remdups (rev (map (\<lambda>x. ext_id (fst x)) (recognized cs))))"
proof -
  let ?k = "\<lambda>e :: ExtensionIdentifierWithVersion \<times> IFileStat. ext_id (fst e)"
  let ?ks = "rev (remdups (rev (map ?k (recognized cs))))"
  let ?srt = "newest_first (\<lambda>a b :: ExtensionIdentifierWithVersion \<times> IFileStat.
      rcompare_fields (version (fst a)) (version (fst b)))"
  have "\<And>i. i \<in> set ?ks \<Longrightarrow> ?k (hd (?srt (filter (\<lambda>y. ?k y = i) (recognized cs)))) = i"
  proof -
    fix i assume "i \<in> set ?ks"
    then have "filter (\<lambda>y. ?k y = i) (recognized cs) \<noteq> []"
      by (auto simp: filter_empty_conv)
    then have "?srt (filter (\<lambda>y. ?k y = i) (recognized cs)) \<noteq> []"
      by (simp add: newest_first_Nil_iff)
    then have "hd (?srt (filter (\<lambda>y. ?k y = i) (recognized cs)))
        \<in> set (?srt (filter (\<lambda>y. ?k y = i) (recognized cs)))"
      by simp
    then show "?k (hd (?srt (filter (\<lambda>y. ?k y = i) (recognized cs)))) = i"
      by (simp add: set_newest_first)
  qed
  then have "map (\<lambda>i. ?k (hd (?srt (filter (\<lambda>y. ?k y = i) (recognized cs))))) ?ks = ?ks"
    by (rule map_idI)
  then show ?thesis
    by (simp add: byExtension_def groupByExtension_eq o_def)
qed

section \<open>Lemmas: the pass as a whole, the promises and the calls\<close>

lemma collect_toDelete_Inr: "comparable cs \<Longrightarrow> \<exists>toDelete. collect_toDelete limit cs = Inr toDelete"
  by (simp add: collect_toDelete_eq)

lemma collect_toDelete_comparable:
  assumes "collect_toDelete limit cs = Inr toDelete"
  shows "comparable cs"
proof (rule ccontr)
  assume "\<not> comparable cs"
  then obtain e where "collect_toDelete limit cs = Inl e"
    using collect_toDelete_throws by blast
  with assms show False by simp
qed

lemma unrecognized_marked:
  assumes "stat \<in> set cs" "parse (name stat) = None"
  shows "resource stat \<in> set (fst (scan_children cs [] []))"
  using assms by (simp add: scan_children_recognized)

lemma unrecognized_in_toDelete:
  assumes "stat \<in> set cs" "parse (name stat) = None" "collect_toDelete limit cs = Inr toDelete"
  shows "resource stat \<in> set toDelete"
proof -
  from assms(1,2) have "resource stat \<in> set (map resource (filter (\<lambda>s. parse (name s) = None) cs))"
    by simp
  moreover from assms(3) have "comparable cs" by (rule collect_toDelete_comparable)
  ultimately show ?thesis
    using assms(3) by (auto simp: collect_toDelete_eq)
qed

lemma cleanUp_throws_listing:
  assumes "exists fileService dir = Inr True" "resolve fileService dir = Inr (Some cs)"
    "collect_toDelete limit cs = Inl e"
  shows "cleanUp fileService dir limit =
     \<lparr>log = [LogError e], deletions = [], settled_at = 0, outcome = Inr ()\<rparr>"
  using assms by (simp add: cleanUp_def cleanUp_try_def Let_def)

lemma cleanUp_not_comparable:
  assumes "exists fileService dir = Inr True" "resolve fileService dir = Inr (Some cs)"
    "\<not> comparable cs"
  shows "\<exists>e. cleanUp fileService dir limit =
     \<lparr>log = [LogError e], deletions = [], settled_at = 0, outcome = Inr ()\<rparr>"
proof -
  from assms(3) obtain e where "collect_toDelete limit cs = Inl e"
    using collect_toDelete_throws by blast
  with assms(1,2) show ?thesis using cleanUp_throws_listing by blast
qed

lemma cleanUp_try_listing:
  assumes "exists fileService dir = Inr True" "resolve fileService dir = Inr (Some cs)"
    "collect_toDelete limit cs = Inr toDelete"
  shows "cleanUp_try fileService dir limit =
     \<lparr>log = map (\<lambda>resource. Trace [''Deleting vsix from cache'', resource]) toDelete,
      deletions = toDelete,
      settled_at = fst (Promise_all (map (del fileService) toDelete)),
      outcome = (case snd (Promise_all (map (del fileService) toDelete)) of
                   Inl e \<Rightarrow> Inl e | Inr _ \<Rightarrow> Inr ())\<rparr>"
  using assms by (simp add: cleanUp_try_def split: prod.splits)

lemma deletions_cleanUp: "deletions (cleanUp fileService dir limit) = deletions (cleanUp_try fileService dir limit)"
  by (simp add: cleanUp_def Let_def split: sum.splits)

lemma cleanUp_deletions:
  assumes "exists fileService dir = Inr True" "resolve fileService dir = Inr (Some cs)"
    "collect_toDelete limit cs = Inr toDelete"
  shows "deletions (cleanUp fileService dir limit) = toDelete"
  by (simp add: deletions_cleanUp cleanUp_try_listing[OF assms])

lemma distinct_nth_in_take:
  assumes "distinct xs" "i < length xs"
  shows "xs ! i \<in> set (take n xs) \<longleftrightarrow> i < n"
proof
  assume "xs ! i \<in> set (take n xs)"
  then obtain j where j: "j < length (take n xs)" "take n xs ! j = xs ! i"
    by (auto simp: in_set_conv_nth)
  then have "xs ! j = xs ! i" "j < length xs" "j < n" by simp_all
  with assms have "j = i" by (simp add: nth_eq_iff_index_eq)
  with \<open>j < n\<close> show "i < n" by simp
next
  assume "i < n"
  with assms(2) have "i < length (take n xs)" by simp
  then have "take n xs ! i \<in> set (take n xs)" by (rule nth_mem)
  with \<open>i < n\<close> show "xs ! i \<in> set (take n xs)" by simp
qed

lemma collect_distinct:
  assumes "distinct (map resource cs)"
  shows "distinct (map resource (filter (\<lambda>s. parse (name s) = None) cs) @
          concat (map (\<lambda>p. map (\<lambda>e. resource (snd e)) (tl p)) (byExtension cs)) @
          map (\<lambda>p. resource (snd (hd p))) (byExtension cs))"
  using assms mset_collect[of cs] by (metis mset_eq_imp_distinct_iff)

lemma foldr_max_ge: "p \<in> set ps \<Longrightarrow> fst p \<le> foldr max (map fst ps) (0::nat)"
  by (induction ps) auto

lemma foldl_first_min:
  "foldl (\<lambda>a b. if fst b < fst a then b else a) r rs \<in> set (r # rs) \<and>
   (\<forall>x\<in>set (r # rs). fst (foldl (\<lambda>a b. if fst b < fst a then b else a) r rs) \<le> (fst x :: nat))"
proof (induction rs arbitrary: r)
  case Nil
  show ?case by simp
next
  case (Cons b rs)
  show ?case
  proof (cases "fst b < fst r")
    case True
    with Cons[of b] show ?thesis by auto
  next
    case False
    with Cons[of r] show ?thesis by auto
  qed
qed

lemma Promise_all_fulfilled:
  assumes "\<forall>p\<in>set ps. \<not> isl (snd p)"
  shows "Promise_all ps = (foldr max (map fst ps) 0, Inr (map (\<lambda>p. projr (snd p)) ps))"
proof -
  from assms have "filter (\<lambda>p. isl (snd p)) ps = []" by (simp add: filter_empty_conv)
  then show ?thesis by (simp add: Promise_all_def)
qed

lemma Promise_all_rejected:
  assumes "\<exists>p\<in>set ps. isl (snd p)"
  shows "\<exists>t e. Promise_all ps = (t, Inl e) \<and> (t, Inl e) \<in> set ps \<and>
           (\<forall>p\<in>set ps. isl (snd p) \<longrightarrow> t \<le> fst p)"
proof -
  from assms have "filter (\<lambda>p. isl (snd p)) ps \<noteq> []" by (simp add: filter_empty_conv)
  then obtain r rs where f: "filter (\<lambda>p. isl (snd p)) ps = r # rs"
    by (cases "filter (\<lambda>p. isl (snd p)) ps") auto
  define m where "m = foldl (\<lambda>a b. if fst b < fst a then b else a) r rs"
  have "m \<in> set (r # rs)" and least: "\<forall>x\<in>set (r # rs). fst m \<le> fst x"
    using foldl_first_min[of r rs] by (simp_all add: m_def)
  then have "m \<in> set (filter (\<lambda>p. isl (snd p)) ps)" by (simp add: f)
  then have mp: "m \<in> set ps" and ml: "isl (snd m)" by simp_all
  from ml obtain e where e: "snd m = Inl e" by (cases "snd m") auto
  have "Promise_all ps = (fst m, Inl e)"
    using e by (simp add: Promise_all_def f m_def Let_def)
  moreover have "(fst m, Inl e) \<in> set ps" using mp e by (metis prod.collapse)
  moreover have "\<forall>p\<in>set ps. isl (snd p) \<longrightarrow> fst m \<le> fst p"
  proof (intro ballI impI)
    fix p assume "p \<in> set ps" "isl (snd p)"
    then have "p \<in> set (r # rs)" by (simp add: f[symmetric])
    with least show "fst m \<le> fst p" by blast
  qed
  ultimately show ?thesis by blast
qed

lemma download_downloads:
  "downloads (snd (download w extension location operation)) =
     downloads w @ (if fileService_exists w location = Inr False
                    then [(extension, location, operation)] else [])"
  by (auto simp: download_def extensionGalleryService_download_def Let_def
      split: sum.splits bool.splits option.splits)

lemma download_ok_exists:
  assumes "download w extension location operation = (Inr u, w')"
  shows "fileService_exists w' location = Inr True"
  using assms
  by (auto simp: download_def extensionGalleryService_download_def fileService_exists_def Let_def
      split: sum.splits bool.splits option.splits if_splits)

lemma downloads_fileService_del: "downloads (snd (fileService_del w location)) = downloads w"
  by (simp add: fileService_del_def split: option.splits)

lemma task_step_past_await: "past_await t \<Longrightarrow> past_await (fst (task_step this uuid w t))"
  by (cases t) (auto split: sum.splits bool.splits prod.splits)

lemma task_steps_downloadExtension:
  "(case task_step this uuid w (AtLocation extension operation) of
      (t1, w1) \<Rightarrow> (case task_step this uuid w1 t1 of
        (t2, w2) \<Rightarrow> task_step this uuid w2 t2)) =
   (case downloadExtension this uuid w extension operation of
      (Inl e, w') \<Rightarrow> (Thrown e, w')
    | (Inr location, w') \<Rightarrow> (Returned location, w'))"
  by (auto simp: downloadExtension_def download_def Let_def
      split: sum.splits bool.splits prod.splits)

lemma step_invariant:
  assumes "step this s s'"
    and "\<forall>t\<in>set (tasks s). past_await t \<longrightarrow> cleanUpPromise s = Resolved"
    and "cleanUpPromise s = Resolved \<longrightarrow> in_flight s = [] \<or> rejected s"
  shows "(\<forall>t\<in>set (tasks s'). past_await t \<longrightarrow> cleanUpPromise s' = Resolved) \<and>
         (cleanUpPromise s' = Resolved \<longrightarrow> in_flight s' = [] \<or> rejected s') \<and>
         (cleanUpPromise s = Resolved \<longrightarrow> cleanUpPromise s' = Resolved) \<and>
         (cleanUpPromise s' = Pending \<longrightarrow>
            cleanUpPromise s = Pending \<and> downloads (store s') = downloads (store s))"
  using assms(1)
proof (cases rule: step.cases)
  case (enter extension operation)
  with assms(2,3) show ?thesis by auto
next
  case (pass_del location r w')
  from pass_del(3) have "downloads w' = downloads (store s)"
    using downloads_fileService_del[of "store s" location] by simp
  with pass_del(1) assms(2,3) show ?thesis by auto
next
  case settle
  then show ?thesis by auto
next
  case (resume i extension operation uuid)
  with assms(2,3) show ?thesis by (cases "cleanUpPromise s") auto
next
  case (run i uuid t' w')
  from run(2,3) have "tasks s ! i \<in> set (tasks s)" "past_await (tasks s ! i)" by simp_all
  with assms(2) have r: "cleanUpPromise s = Resolved" by blast
  with run(1) assms(3) show ?thesis by auto
qed

lemma reachable_invariant:
  assumes "reachable this s0 s" "tasks s0 = []"
    "cleanUpPromise s0 = Resolved \<longrightarrow> in_flight s0 = [] \<or> rejected s0"
  shows "(\<forall>t\<in>set (tasks s). past_await t \<longrightarrow> cleanUpPromise s = Resolved) \<and>
         (cleanUpPromise s = Resolved \<longrightarrow> in_flight s = [] \<or> rejected s) \<and>
         (cleanUpPromise s0 = Resolved \<longrightarrow> cleanUpPromise s = Resolved) \<and>
         (cleanUpPromise s = Pending \<longrightarrow> downloads (store s) = downloads (store s0))"
  using assms
proof (induction rule: reachable.induct)
  case init
  then show ?case by simp
next
  case (next_step s s')
  then have i: "\<forall>t\<in>set (tasks s). past_await t \<longrightarrow> cleanUpPromise s = Resolved"
    and f: "cleanUpPromise s = Resolved \<longrightarrow> in_flight s = [] \<or> rejected s"
    and r: "cleanUpPromise s0 = Resolved \<longrightarrow> cleanUpPromise s = Resolved"
    and d: "cleanUpPromise s = Pending \<longrightarrow> downloads (store s) = downloads (store s0)"
    by simp_all
  from step_invariant[OF next_step(2) i f] r d show ?case by auto
qed

section \<open>The claims\<close>

text \<open>
  C1 as stated fails. With the retention limit 20 that the constructor sets and a listing
  of 21 packages, one version each, the kept representatives are the 21 entries in the
  order met, and the pass deletes the first of them, not the tail entry beyond the first
  20. With a second version of the first package whose major field has a leading zero, the
  comparison of the two throws and the pass deletes nothing.
\<close>

theorem retention_counterexample:
  "collect_groups
     (listing ''/c'' (map (\<lambda>c. ''a.'' @ [c] @ ''-1.0.0'') ''abcdefghijklmnopqrstu'')) =
     Inr ([], map (\<lambda>c. ''/c/a.'' @ [c] @ ''-1.0.0'') ''abcdefghijklmnopqrstu'') \<and>
   deletions (cleanUp
     \<lparr>exists = (\<lambda>_. Inr True),
      resolve = (\<lambda>_. Inr (Some
        (listing ''/c'' (map (\<lambda>c. ''a.'' @ [c] @ ''-1.0.0'') ''abcdefghijklmnopqrstu'')))),
      del = (\<lambda>_. (1, Inr ()))\<rparr> ''/c'' 20) = [''/c/a.a-1.0.0''] \<and>
   cleanUp
     \<lparr>exists = (\<lambda>_. Inr True),
      resolve = (\<lambda>_. Inr (Some
        (listing ''/c'' (''a.a-01.0.0'' #
           map (\<lambda>c. ''a.'' @ [c] @ ''-1.0.0'') ''abcdefghijklmnopqrstu'')))),
      del = (\<lambda>_. (1, Inr ()))\<rparr> ''/c'' 20 =
     \<lparr>log = [LogError (Error ''Invalid Version: 01.0.0'')], deletions = [], settled_at = 0,
      outcome = Inr ()\<rparr>"
proof -
  have "collect_groups
     (listing ''/c'' (map (\<lambda>c. ''a.'' @ [c] @ ''-1.0.0'') ''abcdefghijklmnopqrstu'')) =
     Inr ([], map (\<lambda>c. ''/c/a.'' @ [c] @ ''-1.0.0'') ''abcdefghijklmnopqrstu'')"
    by code_simp
  moreover have "deletions (cleanUp
     \<lparr>exists = (\<lambda>_. Inr True),
      resolve = (\<lambda>_. Inr (Some
        (listing ''/c'' (map (\<lambda>c. ''a.'' @ [c] @ ''-1.0.0'') ''abcdefghijklmnopqrstu'')))),
      del = (\<lambda>_. (1, Inr ()))\<rparr> ''/c'' 20) = [''/c/a.a-1.0.0'']"
    by code_simp
  moreover have "cleanUp
     \<lparr>exists = (\<lambda>_. Inr True),
      resolve = (\<lambda>_. Inr (Some
        (listing ''/c'' (''a.a-01.0.0'' #
           map (\<lambda>c. ''a.'' @ [c] @ ''-1.0.0'') ''abcdefghijklmnopqrstu'')))),
      del = (\<lambda>_. (1, Inr ()))\<rparr> ''/c'' 20 =
     \<lparr>log = [LogError (Error ''Invalid Version: 01.0.0'')], deletions = [], settled_at = 0,
      outcome = Inr ()\<rparr>"
    by code_simp
  ultimately show ?thesis by (intro conjI)
qed

text \<open>
  C1, amended. Take a listing whose children have distinct locations. When no version
  comparison of the pass throws (every package with two or more cached entries has
  versions that the library accepts), the kept representatives (one entry per package,
  the first of its sorted group, in the order in which the packages are first met in the
  listing) are distinct and none of them is among the unrecognized or outdated locations;
  the pass deletes exactly the excess head: a representative is deleted if and only if it
  is among the first (number of representatives minus limit), so the representatives met
  last survive, and when there are no more than the limit, none is deleted. When a
  comparison throws, the two loops end with the error and the pass deletes nothing.
\<close>

theorem retention_deletes_head:
  assumes "distinct (map resource children)"
  shows "(comparable children \<longrightarrow>
     (\<exists>toDelete reps.
       collect_groups children = Inr (toDelete, reps) \<and>
       reps = map (\<lambda>p. resource (snd (hd p))) (byExtension children) \<and>
       map (\<lambda>p. ext_id (fst (hd p))) (byExtension children) =
         rev (remdups (rev (map (\<lambda>x. ext_id (fst x)) (recognized children)))) \<and>
       distinct reps \<and> set toDelete \<inter> set reps = {} \<and>
       collect_toDelete limit children = Inr (toDelete @ take (length reps - limit) reps) \<and>
       (\<forall>i<length reps.
          reps ! i \<in> set (toDelete @ take (length reps - limit) reps) \<longleftrightarrow>
          i < length reps - limit) \<and>
       (exists fileService dir = Inr True \<and> resolve fileService dir = Inr (Some children) \<longrightarrow>
          deletions (cleanUp fileService dir limit) =
            toDelete @ take (length reps - limit) reps))) \<and>
   (\<not> comparable children \<longrightarrow>
     (\<exists>e. collect_groups children = Inl e) \<and>
     (exists fileService dir = Inr True \<and> resolve fileService dir = Inr (Some children) \<longrightarrow>
        deletions (cleanUp fileService dir limit) = []))"
proof (intro conjI impI)
  assume cmp: "comparable children"
  define toDelete where "toDelete = map resource (filter (\<lambda>s. parse (name s) = None) children) @
          concat (map (\<lambda>p. map (\<lambda>e. resource (snd e)) (tl p)) (byExtension children))"
  define reps where "reps = map (\<lambda>p. resource (snd (hd p))) (byExtension children)"
  have g: "collect_groups children = Inr (toDelete, reps)"
    by (simp add: collect_groups_eq[OF cmp] toDelete_def reps_def)
  have c: "collect_toDelete limit children = Inr (toDelete @ take (length reps - limit) reps)"
    by (simp add: collect_toDelete_eq[OF cmp] toDelete_def reps_def)
  have "distinct (toDelete @ reps)"
    using collect_distinct[OF assms] by (simp add: toDelete_def reps_def)
  then have d: "distinct reps" and j: "set toDelete \<inter> set reps = {}" by simp_all
  have n: "reps ! i \<in> set (toDelete @ take (length reps - limit) reps) \<longleftrightarrow> i < length reps - limit"
    if "i < length reps" for i
  proof -
    from that have "reps ! i \<in> set reps" by simp
    with j have "reps ! i \<notin> set toDelete" by blast
    then show ?thesis using distinct_nth_in_take[OF d that] by simp
  qed
  have "deletions (cleanUp fileService dir limit) = toDelete @ take (length reps - limit) reps"
    if "exists fileService dir = Inr True" "resolve fileService dir = Inr (Some children)"
    using that c by (rule cleanUp_deletions)
  with g c d j n byExtension_order[of children]
  show "\<exists>toDelete reps.
       collect_groups children = Inr (toDelete, reps) \<and>
       reps = map (\<lambda>p. resource (snd (hd p))) (byExtension children) \<and>
       map (\<lambda>p. ext_id (fst (hd p))) (byExtension children) =
         rev (remdups (rev (map (\<lambda>x. ext_id (fst x)) (recognized children)))) \<and>
       distinct reps \<and> set toDelete \<inter> set reps = {} \<and>
       collect_toDelete limit children = Inr (toDelete @ take (length reps - limit) reps) \<and>
       (\<forall>i<length reps.
          reps ! i \<in> set (toDelete @ take (length reps - limit) reps) \<longleftrightarrow>
          i < length reps - limit) \<and>
       (exists fileService dir = Inr True \<and> resolve fileService dir = Inr (Some children) \<longrightarrow>
          deletions (cleanUp fileService dir limit) =
            toDelete @ take (length reps - limit) reps)"
    unfolding reps_def[symmetric] by blast
next
  assume "\<not> comparable children"
  then show "\<exists>e. collect_groups children = Inl e" by (rule collect_groups_throws)
next
  assume n: "\<not> comparable children"
    and l: "exists fileService dir = Inr True \<and> resolve fileService dir = Inr (Some children)"
  then obtain e where "cleanUp fileService dir limit =
     \<lparr>log = [LogError e], deletions = [], settled_at = 0, outcome = Inr ()\<rparr>"
    using cleanUp_not_comparable by blast
  then show "deletions (cleanUp fileService dir limit) = []" by simp
qed

theorem retention_deletes_head_witness:
  "distinct (map resource
     (listing ''/c'' (map (\<lambda>c. ''a.'' @ [c] @ ''-1.0.0'') ''abcdefghijklmnopqrstu''))) \<and>
   comparable (listing ''/c'' (map (\<lambda>c. ''a.'' @ [c] @ ''-1.0.0'') ''abcdefghijklmnopqrstu'')) \<and>
   collect_toDelete 20
     (listing ''/c'' (map (\<lambda>c. ''a.'' @ [c] @ ''-1.0.0'') ''abcdefghijklmnopqrstu'')) =
     Inr [''/c/a.a-1.0.0'']"
proof -
  let ?kids = "listing ''/c'' (map (\<lambda>c. ''a.'' @ [c] @ ''-1.0.0'') ''abcdefghijklmnopqrstu'')"
  have d: "distinct (map resource ?kids)" by code_simp
  have k: "comparable ?kids" by code_simp
  have g: "collect_groups ?kids =
      Inr ([], map (\<lambda>c. ''/c/a.'' @ [c] @ ''-1.0.0'') ''abcdefghijklmnopqrstu'')"
    by code_simp
  from retention_deletes_head[OF d, of 20] k obtain toDelete reps where
    t: "collect_groups ?kids = Inr (toDelete, reps)"
    and c: "collect_toDelete 20 ?kids = Inr (toDelete @ take (length reps - 20) reps)"
    by blast
  from t g have "toDelete = []"
    "reps = map (\<lambda>c. ''/c/a.'' @ [c] @ ''-1.0.0'') ''abcdefghijklmnopqrstu''"
    by simp_all
  with c have "collect_toDelete 20 ?kids = Inr [''/c/a.a-1.0.0'']" by simp
  with d k show ?thesis by (intro conjI)
qed

text \<open>
  C2 as stated fails: \<open>getName\<close> lower-cases the key, so an identity whose package id has an
  upper-case letter does not come back from \<open>parse\<close>.
\<close>

theorem roundtrip_counterexample:
  "getName 20 ''u'' \<lparr>gallery_id = ''Pub.Ext'', gallery_version = ''1.0.0''\<rparr> = ''pub.ext-1.0.0'' \<and>
   parse ''pub.ext-1.0.0'' = Some \<lparr>ext_id = ''pub.ext'', version = ''1.0.0''\<rparr> \<and>
   \<lparr>ext_id = ''pub.ext'', version = ''1.0.0''\<rparr> \<noteq> \<lparr>ext_id = ''Pub.Ext'', version = ''1.0.0''\<rparr> \<and>
   parse ''Pub.Ext-1.0.0'' = Some \<lparr>ext_id = ''Pub.Ext'', version = ''1.0.0''\<rparr> \<and>
   getName 20 ''u'' \<lparr>gallery_id = ''Pub.Ext'', gallery_version = ''1.0.0''\<rparr> \<noteq> ''Pub.Ext-1.0.0''"
proof -
  have "getName 20 ''u'' \<lparr>gallery_id = ''Pub.Ext'', gallery_version = ''1.0.0''\<rparr> = ''pub.ext-1.0.0''"
    by code_simp
  moreover have "parse ''pub.ext-1.0.0'' = Some \<lparr>ext_id = ''pub.ext'', version = ''1.0.0''\<rparr>"
    by code_simp
  moreover have "parse ''Pub.Ext-1.0.0'' = Some \<lparr>ext_id = ''Pub.Ext'', version = ''1.0.0''\<rparr>"
    by code_simp
  ultimately show ?thesis by simp
qed

text \<open>
  C2, amended. In enabled mode, for an identity whose package id matches the first group of
  the pattern (a non-empty part without a dot, a dot, and a non-empty rest without line
  terminators) and whose version is three numbers separated by dots, parsing the
  serialized name yields the identity with its package id lower-cased: exactly the
  identity when the package id has no upper-case letter. Every name that parses is the
  package id, a dash and the version of the identity it yields, and is the serialized name
  of that identity when the name has no upper-case letter.
\<close>

theorem roundtrip_up_to_case:
  "(limit \<noteq> 0 \<and> regex_match id_group (gallery_id x) \<and>
      regex_match version_group (gallery_version x) \<longrightarrow>
      parse (getName limit uuid x) =
        Some \<lparr>ext_id = toLowerCase (gallery_id x), version = gallery_version x\<rparr>) \<and>
   (parse nm = Some e \<longrightarrow>
      nm = key e \<and> regex_match id_group (ext_id e) \<and> regex_match version_group (version e) \<and>
      (limit \<noteq> 0 \<and> toLowerCase nm = nm \<longrightarrow>
         getName limit uuid \<lparr>gallery_id = ext_id e, gallery_version = version e\<rparr> = nm))"
proof -
  have "getName limit uuid \<lparr>gallery_id = ext_id e, gallery_version = version e\<rparr> = nm"
    if "parse nm = Some e" "limit \<noteq> 0" "toLowerCase nm = nm"
  proof -
    from that(1) have "nm = key e" by (simp only: parse_Some_iff)
    with that(2,3) show ?thesis
      by (simp add: getName_def new_ExtensionIdentifierWithVersion_def key_def)
  qed
  then show ?thesis
    by (auto simp: parse_getName parse_Some_iff)
qed

theorem roundtrip_up_to_case_witness:
  "parse (getName 20 ''u'' \<lparr>gallery_id = ''ms-python.python'', gallery_version = ''2020.5.86806''\<rparr>) =
     Some \<lparr>ext_id = ''ms-python.python'', version = ''2020.5.86806''\<rparr> \<and>
   parse ''a.b-1.2.3-4.5.6'' = Some \<lparr>ext_id = ''a.b-1.2.3'', version = ''4.5.6''\<rparr> \<and>
   ''a.b-1.2.3-4.5.6'' = key \<lparr>ext_id = ''a.b-1.2.3'', version = ''4.5.6''\<rparr>"
proof -
  have i: "regex_match id_group (gallery_id \<lparr>gallery_id = ''ms-python.python'', gallery_version = ''2020.5.86806''\<rparr>)"
    by code_simp
  have v: "regex_match version_group (gallery_version \<lparr>gallery_id = ''ms-python.python'', gallery_version = ''2020.5.86806''\<rparr>)"
    by code_simp
  have l: "toLowerCase ''ms-python.python'' = ''ms-python.python''"
    by code_simp
  have p: "parse ''a.b-1.2.3-4.5.6'' = Some \<lparr>ext_id = ''a.b-1.2.3'', version = ''4.5.6''\<rparr>"
    by code_simp
  from i v l have "parse (getName 20 ''u'' \<lparr>gallery_id = ''ms-python.python'', gallery_version = ''2020.5.86806''\<rparr>) =
     Some \<lparr>ext_id = ''ms-python.python'', version = ''2020.5.86806''\<rparr>"
    using roundtrip_up_to_case[of 20 "\<lparr>gallery_id = ''ms-python.python'', gallery_version = ''2020.5.86806''\<rparr>" "''u''"]
    by simp
  moreover from p have "''a.b-1.2.3-4.5.6'' = key \<lparr>ext_id = ''a.b-1.2.3'', version = ''4.5.6''\<rparr>"
    using roundtrip_up_to_case[of 20 _ "''u''" "''a.b-1.2.3-4.5.6''" "\<lparr>ext_id = ''a.b-1.2.3'', version = ''4.5.6''\<rparr>"]
    by blast
  ultimately show ?thesis using p by simp
qed

text \<open>
  C3 as stated fails. With three marked deletions of which one fails at tick 9, one fails
  at tick 2 and one succeeds at tick 5, the pass settles at tick 2, before two of its
  deletions have finished, and its log holds one error entry for the two failures. And
  with a marked child beside two entries of one package of which one has a field with a
  leading zero, the comparison throws and no deletion is issued at all.
\<close>

theorem deletions_counterexample:
  "cleanUp
     \<lparr>exists = (\<lambda>_. Inr True),
      resolve = (\<lambda>_. Inr (Some [\<lparr>name = ''x'', resource = ''/c/x''\<rparr>,
                                 \<lparr>name = ''y'', resource = ''/c/y''\<rparr>,
                                 \<lparr>name = ''z'', resource = ''/c/z''\<rparr>])),
      del = (\<lambda>u. if u = ''/c/x'' then (9, Inl (Error ''EBUSY''))
                  else if u = ''/c/y'' then (2, Inl (Error ''EPERM''))
                  else (5, Inr ()))\<rparr> ''/c'' 20 =
     \<lparr>log = [Trace [''Deleting vsix from cache'', ''/c/x''],
             Trace [''Deleting vsix from cache'', ''/c/y''],
             Trace [''Deleting vsix from cache'', ''/c/z''],
             LogError (Error ''EPERM'')],
      deletions = [''/c/x'', ''/c/y'', ''/c/z''],
      settled_at = 2,
      outcome = Inr ()\<rparr> \<and>
   cleanUp
     \<lparr>exists = (\<lambda>_. Inr True),
      resolve = (\<lambda>_. Inr (Some (listing ''/c'' [''x'', ''p.q-1.0.0'', ''p.q-1.01.0'']))),
      del = (\<lambda>_. (1, Inr ()))\<rparr> ''/c'' 20 =
     \<lparr>log = [LogError (Error ''Invalid Version: 1.01.0'')], deletions = [], settled_at = 0,
      outcome = Inr ()\<rparr>"
proof -
  have "cleanUp
     \<lparr>exists = (\<lambda>_. Inr True),
      resolve = (\<lambda>_. Inr (Some [\<lparr>name = ''x'', resource = ''/c/x''\<rparr>,
                                 \<lparr>name = ''y'', resource = ''/c/y''\<rparr>,
                                 \<lparr>name = ''z'', resource = ''/c/z''\<rparr>])),
      del = (\<lambda>u. if u = ''/c/x'' then (9, Inl (Error ''EBUSY''))
                  else if u = ''/c/y'' then (2, Inl (Error ''EPERM''))
                  else (5, Inr ()))\<rparr> ''/c'' 20 =
     \<lparr>log = [Trace [''Deleting vsix from cache'', ''/c/x''],
             Trace [''Deleting vsix from cache'', ''/c/y''],
             Trace [''Deleting vsix from cache'', ''/c/z''],
             LogError (Error ''EPERM'')],
      deletions = [''/c/x'', ''/c/y'', ''/c/z''],
      settled_at = 2,
      outcome = Inr ()\<rparr>"
    by code_simp
  moreover have "cleanUp
     \<lparr>exists = (\<lambda>_. Inr True),
      resolve = (\<lambda>_. Inr (Some (listing ''/c'' [''x'', ''p.q-1.0.0'', ''p.q-1.01.0'']))),
      del = (\<lambda>_. (1, Inr ()))\<rparr> ''/c'' 20 =
     \<lparr>log = [LogError (Error ''Invalid Version: 1.01.0'')], deletions = [], settled_at = 0,
      outcome = Inr ()\<rparr>"
    by code_simp
  ultimately show ?thesis by (intro conjI)
qed

text \<open>
  C3, amended. Once the listing is obtained and no version comparison of the pass throws,
  every marked deletion is issued, each after its trace entry and before any is awaited,
  so a failing deletion keeps no other from being issued, and the pass ends normally. When
  every deletion succeeds, the pass settles only after each has finished and logs no
  error. When some deletion fails, the pass settles at the tick of the first failure, not
  later than any failing deletion, and logs that one error after the trace entries; other
  failures are not logged. When a version comparison throws, no deletion is issued, the
  error is the one log entry, and the pass ends normally.
\<close>

theorem deletions_fan_out:
  assumes "exists fileService dir = Inr True" "resolve fileService dir = Inr (Some children)"
  shows "(comparable children \<longrightarrow>
     (\<exists>toDelete.
       collect_toDelete limit children = Inr toDelete \<and>
       deletions (cleanUp fileService dir limit) = toDelete \<and>
       outcome (cleanUp fileService dir limit) = Inr () \<and>
       ((\<forall>r\<in>set toDelete. \<not> isl (snd (del fileService r))) \<longrightarrow>
          log (cleanUp fileService dir limit) =
            map (\<lambda>resource. Trace [''Deleting vsix from cache'', resource]) toDelete \<and>
          (\<forall>r\<in>set toDelete.
             fst (del fileService r) \<le> settled_at (cleanUp fileService dir limit))) \<and>
       ((\<exists>r\<in>set toDelete. isl (snd (del fileService r))) \<longrightarrow>
          (\<exists>r\<in>set toDelete. \<exists>e.
             del fileService r = (settled_at (cleanUp fileService dir limit), Inl e) \<and>
             log (cleanUp fileService dir limit) =
               map (\<lambda>resource. Trace [''Deleting vsix from cache'', resource]) toDelete @
               [LogError e]) \<and>
          (\<forall>r\<in>set toDelete. isl (snd (del fileService r)) \<longrightarrow>
             settled_at (cleanUp fileService dir limit) \<le> fst (del fileService r))))) \<and>
   (\<not> comparable children \<longrightarrow>
     (\<exists>e. cleanUp fileService dir limit =
        \<lparr>log = [LogError e], deletions = [], settled_at = 0, outcome = Inr ()\<rparr>))"
proof (intro conjI impI)
  assume cmp: "comparable children"
  obtain toDelete where t: "collect_toDelete limit children = Inr toDelete"
    using collect_toDelete_Inr[OF cmp] by blast
  let ?ps = "map (del fileService) toDelete"
  let ?traces = "map (\<lambda>resource. Trace [''Deleting vsix from cache'', resource]) toDelete"
  note body = cleanUp_try_listing[OF assms t]
  have d: "deletions (cleanUp fileService dir limit) = toDelete"
    using assms t by (rule cleanUp_deletions)
  have o: "outcome (cleanUp fileService dir limit) = Inr ()"
    by (cases "outcome (cleanUp_try fileService dir limit)") (simp_all add: cleanUp_def Let_def)
  have ok: "log (cleanUp fileService dir limit) = ?traces \<and>
        (\<forall>r\<in>set toDelete. fst (del fileService r) \<le> settled_at (cleanUp fileService dir limit))"
    if a: "\<forall>r\<in>set toDelete. \<not> isl (snd (del fileService r))"
  proof -
    from a have "\<forall>p\<in>set ?ps. \<not> isl (snd p)" by simp
    then have pa: "Promise_all ?ps = (foldr max (map fst ?ps) 0, Inr (map (\<lambda>p. projr (snd p)) ?ps))"
      by (rule Promise_all_fulfilled)
    then have c: "cleanUp fileService dir limit =
        \<lparr>log = ?traces, deletions = toDelete, settled_at = foldr max (map fst ?ps) 0,
         outcome = Inr ()\<rparr>"
      by (simp add: cleanUp_def Let_def body)
    have "fst (del fileService r) \<le> foldr max (map fst ?ps) 0" if "r \<in> set toDelete" for r
    proof -
      from that have "del fileService r \<in> set ?ps" by simp
      then show ?thesis by (rule foldr_max_ge)
    qed
    with c show ?thesis by simp
  qed
  have bad: "(\<exists>r\<in>set toDelete. \<exists>e.
           del fileService r = (settled_at (cleanUp fileService dir limit), Inl e) \<and>
           log (cleanUp fileService dir limit) = ?traces @ [LogError e]) \<and>
        (\<forall>r\<in>set toDelete. isl (snd (del fileService r)) \<longrightarrow>
           settled_at (cleanUp fileService dir limit) \<le> fst (del fileService r))"
    if a: "\<exists>r\<in>set toDelete. isl (snd (del fileService r))"
  proof -
    from a have "\<exists>p\<in>set ?ps. isl (snd p)" by simp
    then obtain tick e where pa: "Promise_all ?ps = (tick, Inl e)"
      and m: "(tick, Inl e) \<in> set ?ps"
      and least: "\<forall>p\<in>set ?ps. isl (snd p) \<longrightarrow> tick \<le> fst p"
      using Promise_all_rejected by blast
    from pa have c: "cleanUp fileService dir limit =
        \<lparr>log = ?traces @ [LogError e], deletions = toDelete, settled_at = tick,
         outcome = Inr ()\<rparr>"
      by (simp add: cleanUp_def Let_def body)
    from m obtain r where "r \<in> set toDelete" "del fileService r = (tick, Inl e)" by auto
    with c have "\<exists>r\<in>set toDelete. \<exists>e.
           del fileService r = (settled_at (cleanUp fileService dir limit), Inl e) \<and>
           log (cleanUp fileService dir limit) = ?traces @ [LogError e]"
      by auto
    moreover have "settled_at (cleanUp fileService dir limit) \<le> fst (del fileService r)"
      if "r \<in> set toDelete" "isl (snd (del fileService r))" for r
    proof -
      from that have "del fileService r \<in> set ?ps" by simp
      with least that(2) have "tick \<le> fst (del fileService r)" by blast
      with c show ?thesis by simp
    qed
    ultimately show ?thesis by blast
  qed
  from t d o ok bad show "\<exists>toDelete.
       collect_toDelete limit children = Inr toDelete \<and>
       deletions (cleanUp fileService dir limit) = toDelete \<and>
       outcome (cleanUp fileService dir limit) = Inr () \<and>
       ((\<forall>r\<in>set toDelete. \<not> isl (snd (del fileService r))) \<longrightarrow>
          log (cleanUp fileService dir limit) =
            map (\<lambda>resource. Trace [''Deleting vsix from cache'', resource]) toDelete \<and>
          (\<forall>r\<in>set toDelete.
             fst (del fileService r) \<le> settled_at (cleanUp fileService dir limit))) \<and>
       ((\<exists>r\<in>set toDelete. isl (snd (del fileService r))) \<longrightarrow>
          (\<exists>r\<in>set toDelete. \<exists>e.
             del fileService r = (settled_at (cleanUp fileService dir limit), Inl e) \<and>
             log (cleanUp fileService dir limit) =
               map (\<lambda>resource. Trace [''Deleting vsix from cache'', resource]) toDelete @
               [LogError e]) \<and>
          (\<forall>r\<in>set toDelete. isl (snd (del fileService r)) \<longrightarrow>
             settled_at (cleanUp fileService dir limit) \<le> fst (del fileService r)))"
    by blast
next
  assume "\<not> comparable children"
  with assms show "\<exists>e. cleanUp fileService dir limit =
        \<lparr>log = [LogError e], deletions = [], settled_at = 0, outcome = Inr ()\<rparr>"
    by (rule cleanUp_not_comparable)
qed

theorem deletions_fan_out_witness:
  "comparable (listing ''/c'' [''x'', ''p.q-1.0.0'', ''p.q-1.1.0'']) \<and>
   deletions (cleanUp
     \<lparr>exists = (\<lambda>_. Inr True),
      resolve = (\<lambda>_. Inr (Some (listing ''/c'' [''x'', ''p.q-1.0.0'', ''p.q-1.1.0'']))),
      del = (\<lambda>u. if u = ''/c/x'' then (3, Inl (Error ''EBUSY'')) else (5, Inr ()))\<rparr>
     ''/c'' 20) = [''/c/x'', ''/c/p.q-1.0.0''] \<and>
   outcome (cleanUp
     \<lparr>exists = (\<lambda>_. Inr True),
      resolve = (\<lambda>_. Inr (Some (listing ''/c'' [''x'', ''p.q-1.0.0'', ''p.q-1.1.0'']))),
      del = (\<lambda>u. if u = ''/c/x'' then (3, Inl (Error ''EBUSY'')) else (5, Inr ()))\<rparr>
     ''/c'' 20) = Inr ()"
proof -
  let ?kids = "listing ''/c'' [''x'', ''p.q-1.0.0'', ''p.q-1.1.0'']"
  let ?fs = "\<lparr>exists = (\<lambda>_. Inr True),
      resolve = (\<lambda>_. Inr (Some ?kids)),
      del = (\<lambda>u. if u = ''/c/x'' then (3, Inl (Error ''EBUSY'')) else (5, Inr ()))\<rparr>"
  have e: "exists ?fs ''/c'' = Inr True" by simp
  have r: "resolve ?fs ''/c'' = Inr (Some ?kids)" by simp
  have k: "comparable ?kids" by code_simp
  have c: "collect_toDelete 20 ?kids = Inr [''/c/x'', ''/c/p.q-1.0.0'']" by code_simp
  from deletions_fan_out[OF e r, of 20] k obtain toDelete where
    "collect_toDelete 20 ?kids = Inr toDelete" "deletions (cleanUp ?fs ''/c'' 20) = toDelete"
    "outcome (cleanUp ?fs ''/c'' 20) = Inr ()"
    by blast
  with c k show ?thesis by simp
qed

text \<open>
  C4 as stated fails. With two cached versions of one package of which the newer has a
  major field with a leading zero, the comparison of the two throws, the pass logs the
  error and deletes nothing, so the older version is not deleted.
\<close>

theorem newest_version_counterexample:
  "recognized (listing ''/c'' [''a.b-1.0.0'', ''a.b-02.0.0'']) =
     [(\<lparr>ext_id = ''a.b'', version = ''1.0.0''\<rparr>,
       \<lparr>name = ''a.b-1.0.0'', resource = ''/c/a.b-1.0.0''\<rparr>),
      (\<lparr>ext_id = ''a.b'', version = ''02.0.0''\<rparr>,
       \<lparr>name = ''a.b-02.0.0'', resource = ''/c/a.b-02.0.0''\<rparr>)] \<and>
   cleanUp
     \<lparr>exists = (\<lambda>_. Inr True),
      resolve = (\<lambda>_. Inr (Some (listing ''/c'' [''a.b-1.0.0'', ''a.b-02.0.0'']))),
      del = (\<lambda>_. (1, Inr ()))\<rparr> ''/c'' 20 =
     \<lparr>log = [LogError (Error ''Invalid Version: 02.0.0'')], deletions = [], settled_at = 0,
      outcome = Inr ()\<rparr>"
proof -
  have "recognized (listing ''/c'' [''a.b-1.0.0'', ''a.b-02.0.0'']) =
     [(\<lparr>ext_id = ''a.b'', version = ''1.0.0''\<rparr>,
       \<lparr>name = ''a.b-1.0.0'', resource = ''/c/a.b-1.0.0''\<rparr>),
      (\<lparr>ext_id = ''a.b'', version = ''02.0.0''\<rparr>,
       \<lparr>name = ''a.b-02.0.0'', resource = ''/c/a.b-02.0.0''\<rparr>)]"
    by code_simp
  moreover have "cleanUp
     \<lparr>exists = (\<lambda>_. Inr True),
      resolve = (\<lambda>_. Inr (Some (listing ''/c'' [''a.b-1.0.0'', ''a.b-02.0.0'']))),
      del = (\<lambda>_. (1, Inr ()))\<rparr> ''/c'' 20 =
     \<lparr>log = [LogError (Error ''Invalid Version: 02.0.0'')], deletions = [], settled_at = 0,
      outcome = Inr ()\<rparr>"
    by code_simp
  ultimately show ?thesis by (intro conjI)
qed

text \<open>
  C4, amended. When no version comparison of the pass throws (every package with two or
  more cached entries has versions that the library accepts): every recognized entry
  belongs to a group, and a group holds exactly the recognized entries of one package id;
  in every group the first entry after sorting is the representative pushed on
  \<open>distinct\<close>, no entry of the group has fields that compare greater than the
  representative's (major, then minor, then patch), and every other entry of the group is
  pushed on \<open>toDelete\<close>, stays there for every retention limit, and has its deletion
  issued by \<open>cleanUp\<close> once the listing is obtained; with distinct locations no
  representative is among these. When a comparison throws, the pass issues no deletion.
\<close>

theorem newest_version_kept_per_group:
  "(comparable children \<longrightarrow>
     (\<exists>toDelete.
       collect_groups children =
         Inr (toDelete, map (\<lambda>p. resource (snd (hd p))) (byExtension children)) \<and>
       (\<forall>x\<in>set (recognized children). \<exists>p\<in>set (byExtension children). x \<in> set p) \<and>
       (\<forall>p\<in>set (byExtension children).
          p \<noteq> [] \<and>
          set p = {x \<in> set (recognized children). ext_id (fst x) = ext_id (fst (hd p))} \<and>
          (\<forall>x\<in>set p. compare_fields (version (fst x)) (version (fst (hd p))) \<le> 0) \<and>
          (\<forall>x\<in>set (tl p).
             resource (snd x) \<in> set toDelete \<and>
             (exists fileService dir = Inr True \<and>
              resolve fileService dir = Inr (Some children) \<longrightarrow>
                (\<forall>limit. resource (snd x) \<in> set (deletions (cleanUp fileService dir limit)))))) \<and>
       (\<forall>limit. \<exists>excess. collect_toDelete limit children = Inr (toDelete @ excess)) \<and>
       (distinct (map resource children) \<longrightarrow>
          set toDelete \<inter> set (map (\<lambda>p. resource (snd (hd p))) (byExtension children)) = {}))) \<and>
   (\<not> comparable children \<and> exists fileService dir = Inr True \<and>
    resolve fileService dir = Inr (Some children) \<longrightarrow>
      (\<forall>limit. deletions (cleanUp fileService dir limit) = []))"
proof (intro conjI impI)
  assume cmp: "comparable children"
  define toDelete where "toDelete = map resource (filter (\<lambda>s. parse (name s) = None) children) @
          concat (map (\<lambda>p. map (\<lambda>e. resource (snd e)) (tl p)) (byExtension children))"
  have g: "collect_groups children =
       Inr (toDelete, map (\<lambda>p. resource (snd (hd p))) (byExtension children))"
    by (simp add: collect_groups_eq[OF cmp] toDelete_def)
  have c: "collect_toDelete limit children =
      Inr (toDelete @ take (length (byExtension children) - limit)
             (map (\<lambda>p. resource (snd (hd p))) (byExtension children)))" for limit
    by (simp add: collect_toDelete_eq[OF cmp] toDelete_def)
  then have c': "\<forall>limit. \<exists>excess. collect_toDelete limit children = Inr (toDelete @ excess)"
    by blast
  have v: "\<forall>x\<in>set (recognized children). \<exists>p\<in>set (byExtension children). x \<in> set p"
    using byExtension_covers by blast
  have dl: "resource (snd x) \<in> set (deletions (cleanUp fileService dir limit))"
    if "resource (snd x) \<in> set toDelete" "exists fileService dir = Inr True"
      "resolve fileService dir = Inr (Some children)" for x limit
  proof -
    have "deletions (cleanUp fileService dir limit) =
        toDelete @ take (length (byExtension children) - limit)
             (map (\<lambda>p. resource (snd (hd p))) (byExtension children))"
      using that(2,3) c by (rule cleanUp_deletions)
    with that(1) show ?thesis by simp
  qed
  have p: "p \<noteq> [] \<and>
        set p = {x \<in> set (recognized children). ext_id (fst x) = ext_id (fst (hd p))} \<and>
        (\<forall>x\<in>set p. compare_fields (version (fst x)) (version (fst (hd p))) \<le> 0) \<and>
        (\<forall>x\<in>set (tl p).
             resource (snd x) \<in> set toDelete \<and>
             (exists fileService dir = Inr True \<and>
              resolve fileService dir = Inr (Some children) \<longrightarrow>
                (\<forall>limit. resource (snd x) \<in> set (deletions (cleanUp fileService dir limit)))))"
    if m: "p \<in> set (byExtension children)" for p
  proof -
    from m obtain q where q: "p = newest_first (\<lambda>a b. rcompare_fields (version (fst a)) (version (fst b))) q"
      by (auto simp: byExtension_def)
    have "compare_fields (version (fst x)) (version (fst (hd p))) \<le> 0" if "x \<in> set p" for x
    proof -
      from that have "x \<in> set q" by (simp add: q set_newest_first)
      then show ?thesis unfolding q by (rule hd_sorted_newest)
    qed
    moreover have t: "resource (snd x) \<in> set toDelete" if "x \<in> set (tl p)" for x
      using that m by (auto simp: toDelete_def)
    ultimately show ?thesis
      using byExtension_nonempty[OF m] byExtension_members[OF m] dl by blast
  qed
  have j: "set toDelete \<inter> set (map (\<lambda>p. resource (snd (hd p))) (byExtension children)) = {}"
    if "distinct (map resource children)"
  proof -
    have "distinct (toDelete @ map (\<lambda>p. resource (snd (hd p))) (byExtension children))"
      using collect_distinct[OF that] by (simp add: toDelete_def)
    then show ?thesis by simp
  qed
  from g v p c' j show "\<exists>toDelete.
       collect_groups children =
         Inr (toDelete, map (\<lambda>p. resource (snd (hd p))) (byExtension children)) \<and>
       (\<forall>x\<in>set (recognized children). \<exists>p\<in>set (byExtension children). x \<in> set p) \<and>
       (\<forall>p\<in>set (byExtension children).
          p \<noteq> [] \<and>
          set p = {x \<in> set (recognized children). ext_id (fst x) = ext_id (fst (hd p))} \<and>
          (\<forall>x\<in>set p. compare_fields (version (fst x)) (version (fst (hd p))) \<le> 0) \<and>
          (\<forall>x\<in>set (tl p).
             resource (snd x) \<in> set toDelete \<and>
             (exists fileService dir = Inr True \<and>
              resolve fileService dir = Inr (Some children) \<longrightarrow>
                (\<forall>limit. resource (snd x) \<in> set (deletions (cleanUp fileService dir limit)))))) \<and>
       (\<forall>limit. \<exists>excess. collect_toDelete limit children = Inr (toDelete @ excess)) \<and>
       (distinct (map resource children) \<longrightarrow>
          set toDelete \<inter> set (map (\<lambda>p. resource (snd (hd p))) (byExtension children)) = {})"
    by blast
next
  assume a: "\<not> comparable children \<and> exists fileService dir = Inr True \<and>
    resolve fileService dir = Inr (Some children)"
  show "\<forall>limit. deletions (cleanUp fileService dir limit) = []"
  proof
    fix limit
    from a obtain e where "cleanUp fileService dir limit =
       \<lparr>log = [LogError e], deletions = [], settled_at = 0, outcome = Inr ()\<rparr>"
      using cleanUp_not_comparable by blast
    then show "deletions (cleanUp fileService dir limit) = []" by simp
  qed
qed

theorem newest_version_kept_per_group_witness:
  "comparable (listing ''/c'' [''a.a-1.9.0'', ''b.b-2.0.0'', ''a.a-1.10.0'']) \<and>
   byExtension (listing ''/c'' [''a.a-1.9.0'', ''b.b-2.0.0'', ''a.a-1.10.0'']) =
     [[(\<lparr>ext_id = ''a.a'', version = ''1.10.0''\<rparr>,
        \<lparr>name = ''a.a-1.10.0'', resource = ''/c/a.a-1.10.0''\<rparr>),
       (\<lparr>ext_id = ''a.a'', version = ''1.9.0''\<rparr>,
        \<lparr>name = ''a.a-1.9.0'', resource = ''/c/a.a-1.9.0''\<rparr>)],
      [(\<lparr>ext_id = ''b.b'', version = ''2.0.0''\<rparr>,
        \<lparr>name = ''b.b-2.0.0'', resource = ''/c/b.b-2.0.0''\<rparr>)]] \<and>
   collect_groups (listing ''/c'' [''a.a-1.9.0'', ''b.b-2.0.0'', ''a.a-1.10.0'']) =
     Inr ([''/c/a.a-1.9.0''], [''/c/a.a-1.10.0'', ''/c/b.b-2.0.0'']) \<and>
   ''/c/a.a-1.9.0'' \<in> set (deletions (cleanUp
     \<lparr>exists = (\<lambda>_. Inr True),
      resolve = (\<lambda>_. Inr (Some (listing ''/c'' [''a.a-1.9.0'', ''b.b-2.0.0'', ''a.a-1.10.0'']))),
      del = (\<lambda>_. (1, Inr ()))\<rparr> ''/c'' 20))"
proof -
  let ?kids = "listing ''/c'' [''a.a-1.9.0'', ''b.b-2.0.0'', ''a.a-1.10.0'']"
  let ?fs = "\<lparr>exists = (\<lambda>_. Inr True), resolve = (\<lambda>_. Inr (Some ?kids)),
      del = (\<lambda>_. (1, Inr ()))\<rparr>"
  have k: "comparable ?kids" by code_simp
  have b: "byExtension ?kids =
     [[(\<lparr>ext_id = ''a.a'', version = ''1.10.0''\<rparr>,
        \<lparr>name = ''a.a-1.10.0'', resource = ''/c/a.a-1.10.0''\<rparr>),
       (\<lparr>ext_id = ''a.a'', version = ''1.9.0''\<rparr>,
        \<lparr>name = ''a.a-1.9.0'', resource = ''/c/a.a-1.9.0''\<rparr>)],
      [(\<lparr>ext_id = ''b.b'', version = ''2.0.0''\<rparr>,
        \<lparr>name = ''b.b-2.0.0'', resource = ''/c/b.b-2.0.0''\<rparr>)]]"
    by code_simp
  have g: "collect_groups ?kids = Inr ([''/c/a.a-1.9.0''], [''/c/a.a-1.10.0'', ''/c/b.b-2.0.0''])"
    by code_simp
  have e: "exists ?fs ''/c'' = Inr True \<and> resolve ?fs ''/c'' = Inr (Some ?kids)" by simp
  let ?x = "(\<lparr>ext_id = ''a.a'', version = ''1.9.0''\<rparr>,
        \<lparr>name = ''a.a-1.9.0'', resource = ''/c/a.a-1.9.0''\<rparr>)"
  let ?g = "[(\<lparr>ext_id = ''a.a'', version = ''1.10.0''\<rparr>,
        \<lparr>name = ''a.a-1.10.0'', resource = ''/c/a.a-1.10.0''\<rparr>), ?x]"
  have gm: "?g \<in> set (byExtension ?kids)" by (simp add: b)
  have xm: "?x \<in> set (tl ?g)" by simp
  note th = newest_version_kept_per_group[of ?kids ?fs "''/c''"]
  from mp[OF conjunct1[OF th] k] obtain toDelete where
    "(\<forall>x\<in>set (recognized ?kids). \<exists>p\<in>set (byExtension ?kids). x \<in> set p) \<and>
     (\<forall>p\<in>set (byExtension ?kids).
          p \<noteq> [] \<and>
          set p = {x \<in> set (recognized ?kids). ext_id (fst x) = ext_id (fst (hd p))} \<and>
          (\<forall>x\<in>set p. compare_fields (version (fst x)) (version (fst (hd p))) \<le> 0) \<and>
          (\<forall>x\<in>set (tl p).
             resource (snd x) \<in> set toDelete \<and>
             (exists ?fs ''/c'' = Inr True \<and> resolve ?fs ''/c'' = Inr (Some ?kids) \<longrightarrow>
                (\<forall>limit. resource (snd x) \<in> set (deletions (cleanUp ?fs ''/c'' limit)))))) \<and>
     (\<forall>limit. \<exists>excess. collect_toDelete limit ?kids = Inr (toDelete @ excess)) \<and>
     (distinct (map resource ?kids) \<longrightarrow>
          set toDelete \<inter> set (map (\<lambda>p. resource (snd (hd p))) (byExtension ?kids)) = {})"
    by (elim exE conjE) (rule that, intro conjI)
  note q = bspec[OF conjunct1[OF conjunct2[OF this]] gm]
  note r = bspec[OF conjunct2[OF conjunct2[OF conjunct2[OF q]]] xm]
  note u = spec[OF mp[OF conjunct2[OF r] e], of 20]
  from u have "resource (snd ?x) \<in> set (deletions (cleanUp ?fs ''/c'' 20))" .
  then have "''/c/a.a-1.9.0'' \<in> set (deletions (cleanUp ?fs ''/c'' 20))" by simp
  with k b g show ?thesis by (intro conjI)
qed

text \<open>
  C5. In enabled mode \<open>downloadExtension\<close> invokes the fetcher exactly when the existence
  check of the computed location answers false, with the extension, that location and the
  operation it was given. When a first call returns, a second call for the same extension,
  made in the world the first one left, returns the same location without invoking the
  fetcher, so the two calls invoke it at most once.
\<close>

theorem download_fetches_once:
  assumes "cache this \<noteq> 0"
  shows "downloads (snd (downloadExtension this uuid w extension operation)) =
           downloads w @
           (if fileService_exists w
                 (joinPath (extensionsDownloadDir this) (getName (cache this) uuid extension)) =
               Inr False
            then [(extension,
                   joinPath (extensionsDownloadDir this) (getName (cache this) uuid extension),
                   operation)]
            else []) \<and>
         (\<forall>location w1.
            downloadExtension this uuid w extension operation = (Inr location, w1) \<longrightarrow>
            fst (downloadExtension this uuid' w1 extension operation') = Inr location \<and>
            downloads (snd (downloadExtension this uuid' w1 extension operation')) = downloads w1 \<and>
            length (downloads w1) \<le> Suc (length (downloads w)))"
proof -
  let ?loc = "joinPath (extensionsDownloadDir this) (getName (cache this) uuid extension)"
  have same: "joinPath (extensionsDownloadDir this) (getName (cache this) uuid' extension) = ?loc"
    using assms by (simp add: getName_def)
  have s: "snd (downloadExtension this uuid w extension operation) =
      snd (download w extension ?loc operation)" for w operation
    by (simp add: downloadExtension_def Let_def split: prod.splits sum.splits)
  have first: "downloads (snd (downloadExtension this uuid w extension operation)) =
           downloads w @ (if fileService_exists w ?loc = Inr False
            then [(extension, ?loc, operation)] else [])"
    by (simp only: s download_downloads)
  have second: "fst (downloadExtension this uuid' w1 extension operation') = Inr location \<and>
            downloads (snd (downloadExtension this uuid' w1 extension operation')) = downloads w1 \<and>
            length (downloads w1) \<le> Suc (length (downloads w))"
    if r: "downloadExtension this uuid w extension operation = (Inr location, w1)"
    for location w1
  proof -
    from r obtain u where d: "download w extension ?loc operation = (Inr u, w1)"
      and l: "location = ?loc"
      by (auto simp: downloadExtension_def Let_def split: prod.splits sum.splits)
    from d have e: "fileService_exists w1 ?loc = Inr True" by (rule download_ok_exists)
    then have d2: "download w1 extension ?loc operation' = (Inr (), w1)"
      by (simp add: download_def)
    have "downloadExtension this uuid' w1 extension operation' = (Inr ?loc, w1)"
      by (simp add: downloadExtension_def Let_def same d2)
    moreover have "downloads w1 = downloads w @ (if fileService_exists w ?loc = Inr False
            then [(extension, ?loc, operation)] else [])"
      using first r by simp
    ultimately show ?thesis using l by simp
  qed
  from first second show ?thesis by blast
qed

theorem download_fetches_once_witness:
  "downloadExtension \<lparr>extensionsDownloadDir = ''/c'', cache = 20\<rparr> ''u1''
     \<lparr>files = {}, downloads = [], faults = (\<lambda>_. None)\<rparr>
     \<lparr>gallery_id = ''pub.ext'', gallery_version = ''1.0.0''\<rparr> ''install'' =
     (Inr ''/c/pub.ext-1.0.0'',
      \<lparr>files = {''/c/pub.ext-1.0.0''},
       downloads = [(\<lparr>gallery_id = ''pub.ext'', gallery_version = ''1.0.0''\<rparr>,
                     ''/c/pub.ext-1.0.0'', ''install'')],
       faults = (\<lambda>_. None)\<rparr>) \<and>
   downloads (snd (downloadExtension \<lparr>extensionsDownloadDir = ''/c'', cache = 20\<rparr> ''u2''
     \<lparr>files = {''/c/pub.ext-1.0.0''},
       downloads = [(\<lparr>gallery_id = ''pub.ext'', gallery_version = ''1.0.0''\<rparr>,
                     ''/c/pub.ext-1.0.0'', ''install'')],
       faults = (\<lambda>_. None)\<rparr>
     \<lparr>gallery_id = ''pub.ext'', gallery_version = ''1.0.0''\<rparr> ''update'')) =
     [(\<lparr>gallery_id = ''pub.ext'', gallery_version = ''1.0.0''\<rparr>, ''/c/pub.ext-1.0.0'', ''install'')]"
proof -
  let ?dl = "\<lparr>extensionsDownloadDir = ''/c'', cache = 20\<rparr>"
  let ?x = "\<lparr>gallery_id = ''pub.ext'', gallery_version = ''1.0.0''\<rparr>"
  let ?w = "\<lparr>files = {}, downloads = [], faults = (\<lambda>_. None)\<rparr> :: string world"
  let ?w1 = "\<lparr>files = {''/c/pub.ext-1.0.0''},
       downloads = [(?x, ''/c/pub.ext-1.0.0'', ''install'')],
       faults = (\<lambda>_. None)\<rparr> :: string world"
  have n: "getName 20 ''u1'' ?x = ''pub.ext-1.0.0''" by code_simp
  have c: "cache ?dl \<noteq> 0" by simp
  have f: "downloadExtension ?dl ''u1'' ?w ?x ''install'' = (Inr ''/c/pub.ext-1.0.0'', ?w1)"
    by (simp add: downloadExtension_def download_def fileService_exists_def
        extensionGalleryService_download_def joinPath_def n Let_def)
  from download_fetches_once[OF c, of "''u1''" ?w ?x "''install''" "''u2''" "''update''"] f
  have "downloads (snd (downloadExtension ?dl ''u2'' ?w1 ?x ''update'')) = downloads ?w1"
    by blast
  with f show ?thesis by simp
qed

text \<open>
  C6. With caching disabled \<open>delete\<close> is the deletion of the file service: the same result,
  errors included, and the same world afterwards. With caching enabled it returns without
  an error and leaves the world as it was. So a location that exists and can be removed is
  gone after the call if and only if caching is disabled.
\<close>

theorem delete_only_when_disabled:
  "(cache this = 0 \<longrightarrow> delete this w location = fileService_del w location) \<and>
   (cache this \<noteq> 0 \<longrightarrow> delete this w location = (Inr (), w)) \<and>
   (location \<in> files w \<and> faults w (Del location) = None \<longrightarrow>
      (location \<notin> files (snd (delete this w location)) \<longleftrightarrow> cache this = 0) \<and>
      fst (delete this w location) = Inr ()) \<and>
   (\<forall>e. cache this = 0 \<and> faults w (Del location) = Some e \<longrightarrow>
      delete this w location = (Inl e, w))"
  by (auto simp: delete_def fileService_del_def)

theorem delete_only_when_disabled_witness:
  "delete \<lparr>extensionsDownloadDir = ''/tmp'', cache = 0\<rparr>
     \<lparr>files = {''/tmp/u1''}, downloads = [], faults = (\<lambda>_. None)\<rparr> ''/tmp/u1'' =
     (Inr (), \<lparr>files = {}, downloads = ([] :: (IGalleryExtension \<times> URI \<times> nat) list),
               faults = (\<lambda>_. None)\<rparr>) \<and>
   delete \<lparr>extensionsDownloadDir = ''/c'', cache = 20\<rparr>
     \<lparr>files = {''/c/pub.ext-1.0.0''}, downloads = [], faults = (\<lambda>_. None)\<rparr> ''/c/pub.ext-1.0.0'' =
     (Inr (), \<lparr>files = {''/c/pub.ext-1.0.0''},
               downloads = ([] :: (IGalleryExtension \<times> URI \<times> nat) list),
               faults = (\<lambda>_. None)\<rparr>) \<and>
   delete \<lparr>extensionsDownloadDir = ''/tmp'', cache = 0\<rparr>
     \<lparr>files = {''/tmp/u1''}, downloads = ([] :: (IGalleryExtension \<times> URI \<times> nat) list),
      faults = (\<lambda>c. if c = Del ''/tmp/u1'' then Some (Error ''EBUSY'') else None)\<rparr> ''/tmp/u1'' =
     (Inl (Error ''EBUSY''),
      \<lparr>files = {''/tmp/u1''}, downloads = [],
       faults = (\<lambda>c. if c = Del ''/tmp/u1'' then Some (Error ''EBUSY'') else None)\<rparr>)"
proof -
  let ?off = "\<lparr>extensionsDownloadDir = ''/tmp'', cache = 0\<rparr>"
  let ?on = "\<lparr>extensionsDownloadDir = ''/c'', cache = 20\<rparr>"
  let ?w = "\<lparr>files = {''/tmp/u1''}, downloads = [], faults = (\<lambda>_. None)\<rparr> :: nat world"
  let ?v = "\<lparr>files = {''/c/pub.ext-1.0.0''}, downloads = [], faults = (\<lambda>_. None)\<rparr> :: nat world"
  let ?b = "\<lparr>files = {''/tmp/u1''}, downloads = [],
      faults = (\<lambda>c. if c = Del ''/tmp/u1'' then Some (Error ''EBUSY'') else None)\<rparr> :: nat world"
  have "delete ?off ?w ''/tmp/u1'' = fileService_del ?w ''/tmp/u1''"
    using delete_only_when_disabled[of ?off ?w "''/tmp/u1''"] by simp
  moreover have "delete ?on ?v ''/c/pub.ext-1.0.0'' = (Inr (), ?v)"
    using delete_only_when_disabled[of ?on ?v "''/c/pub.ext-1.0.0''"] by simp
  moreover have "delete ?off ?b ''/tmp/u1'' = (Inl (Error ''EBUSY''), ?b)"
    using delete_only_when_disabled[of ?off ?b "''/tmp/u1''"] by (simp add: fileService_del_def)
  ultimately show ?thesis by (simp add: fileService_del_def)
qed

text \<open>
  C7 as stated fails. Take the cache folder with \<open>readme.txt\<close>, \<open>a.a-1.0.0\<close> and
  \<open>a.a-1.2.0\<close>: the pass issues the deletions of \<open>readme.txt\<close> and of the outdated
  \<open>a.a-1.0.0\<close>. When the deletion of \<open>readme.txt\<close> fails, the promise resolves with the
  deletion of \<open>a.a-1.0.0\<close> still in flight; a download of \<open>a.a\<close> 1.0.0 then finds the file,
  and is served its location while that deletion of the pass is still running; the
  deletion then removes the file.
\<close>

theorem gating_counterexample:
  "collect_toDelete 20 (listing ''/c'' [''readme.txt'', ''a.a-1.0.0'', ''a.a-1.2.0'']) =
     Inr [''/c/readme.txt'', ''/c/a.a-1.0.0''] \<and>
   reachable \<lparr>extensionsDownloadDir = ''/c'', cache = 20\<rparr>
     \<lparr>cleanUpPromise = Pending, in_flight = [''/c/readme.txt'', ''/c/a.a-1.0.0''],
      rejected = False,
      store = \<lparr>files = {''/c/readme.txt'', ''/c/a.a-1.0.0'', ''/c/a.a-1.2.0''},
               downloads = [],
               faults = (\<lambda>c. if c = Del ''/c/readme.txt'' then Some (Error ''EBUSY'') else None)\<rparr>,
      tasks = ([] :: string task list)\<rparr>
     \<lparr>cleanUpPromise = Resolved, in_flight = [''/c/a.a-1.0.0''], rejected = True,
      store = \<lparr>files = {''/c/readme.txt'', ''/c/a.a-1.0.0'', ''/c/a.a-1.2.0''},
               downloads = [],
               faults = (\<lambda>c. if c = Del ''/c/readme.txt'' then Some (Error ''EBUSY'') else None)\<rparr>,
      tasks = [Returned ''/c/a.a-1.0.0'']\<rparr> \<and>
   reachable \<lparr>extensionsDownloadDir = ''/c'', cache = 20\<rparr>
     \<lparr>cleanUpPromise = Pending, in_flight = [''/c/readme.txt'', ''/c/a.a-1.0.0''],
      rejected = False,
      store = \<lparr>files = {''/c/readme.txt'', ''/c/a.a-1.0.0'', ''/c/a.a-1.2.0''},
               downloads = [],
               faults = (\<lambda>c. if c = Del ''/c/readme.txt'' then Some (Error ''EBUSY'') else None)\<rparr>,
      tasks = ([] :: string task list)\<rparr>
     \<lparr>cleanUpPromise = Resolved, in_flight = [], rejected = True,
      store = \<lparr>files = {''/c/readme.txt'', ''/c/a.a-1.2.0''},
               downloads = [],
               faults = (\<lambda>c. if c = Del ''/c/readme.txt'' then Some (Error ''EBUSY'') else None)\<rparr>,
      tasks = [Returned ''/c/a.a-1.0.0'']\<rparr>"
proof -
  let ?dl = "\<lparr>extensionsDownloadDir = ''/c'', cache = 20\<rparr>"
  let ?x = "\<lparr>gallery_id = ''a.a'', gallery_version = ''1.0.0''\<rparr>"
  let ?f = "\<lambda>c :: string call. if c = Del ''/c/readme.txt'' then Some (Error ''EBUSY'') else None"
  let ?w = "\<lparr>files = {''/c/readme.txt'', ''/c/a.a-1.0.0'', ''/c/a.a-1.2.0''},
             downloads = [], faults = ?f\<rparr>"
  let ?w' = "\<lparr>files = {''/c/readme.txt'', ''/c/a.a-1.2.0''}, downloads = [], faults = ?f\<rparr>"
  let ?s0 = "\<lparr>cleanUpPromise = Pending, in_flight = [''/c/readme.txt'', ''/c/a.a-1.0.0''],
      rejected = False, store = ?w, tasks = []\<rparr>"
  let ?s1 = "\<lparr>cleanUpPromise = Pending, in_flight = [''/c/readme.txt'', ''/c/a.a-1.0.0''],
      rejected = False, store = ?w, tasks = [AtAwait ?x ''install'']\<rparr>"
  let ?s2 = "\<lparr>cleanUpPromise = Pending, in_flight = [''/c/a.a-1.0.0''],
      rejected = True, store = ?w, tasks = [AtAwait ?x ''install'']\<rparr>"
  let ?s3 = "\<lparr>cleanUpPromise = Resolved, in_flight = [''/c/a.a-1.0.0''],
      rejected = True, store = ?w, tasks = [AtAwait ?x ''install'']\<rparr>"
  let ?s4 = "\<lparr>cleanUpPromise = Resolved, in_flight = [''/c/a.a-1.0.0''],
      rejected = True, store = ?w, tasks = [AtLocation ?x ''install'']\<rparr>"
  let ?s5 = "\<lparr>cleanUpPromise = Resolved, in_flight = [''/c/a.a-1.0.0''],
      rejected = True, store = ?w, tasks = [AtExists ?x ''/c/a.a-1.0.0'' ''install'']\<rparr>"
  let ?s6 = "\<lparr>cleanUpPromise = Resolved, in_flight = [''/c/a.a-1.0.0''],
      rejected = True, store = ?w, tasks = [Returned ''/c/a.a-1.0.0'']\<rparr>"
  let ?s7 = "\<lparr>cleanUpPromise = Resolved, in_flight = [],
      rejected = True, store = ?w', tasks = [Returned ''/c/a.a-1.0.0'']\<rparr>"
  have c: "collect_toDelete 20 (listing ''/c'' [''readme.txt'', ''a.a-1.0.0'', ''a.a-1.2.0'']) =
     Inr [''/c/readme.txt'', ''/c/a.a-1.0.0'']"
    by code_simp
  have n: "getName 20 ''u'' ?x = ''a.a-1.0.0''" by code_simp
  have d1: "fileService_del ?w ''/c/readme.txt'' = (Inl (Error ''EBUSY''), ?w)"
    by (simp add: fileService_del_def)
  have "{''/c/readme.txt'', ''/c/a.a-1.0.0'', ''/c/a.a-1.2.0''} - {''/c/a.a-1.0.0''} =
      {''/c/readme.txt'', ''/c/a.a-1.2.0''}"
    by (simp add: insert_Diff_if)
  then have d2: "fileService_del ?w ''/c/a.a-1.0.0'' = (Inr (), ?w')"
    by (simp add: fileService_del_def)
  have t1: "task_step ?dl ''u'' ?w (AtLocation ?x ''install'') =
      (AtExists ?x ''/c/a.a-1.0.0'' ''install'', ?w)"
    by (simp add: n joinPath_def)
  have t2: "task_step ?dl ''u'' ?w (AtExists ?x ''/c/a.a-1.0.0'' ''install'') =
      (Returned ''/c/a.a-1.0.0'', ?w)"
    by (simp add: fileService_exists_def)
  have s1: "step ?dl ?s0 ?s1"
    using step.enter[of ?dl ?s0 ?x "''install''"] by simp
  have s2: "step ?dl ?s1 ?s2"
    using step.pass_del[where this = ?dl and s = ?s1 and location = "''/c/readme.txt''"
        and r = "Inl (Error ''EBUSY'')" and w' = ?w] d1
    by simp
  have s3: "step ?dl ?s2 ?s3"
    using step.settle[where this = ?dl and s = ?s2] by simp
  have s4: "step ?dl ?s3 ?s4"
    using step.resume[where this = ?dl and s = ?s3 and i = 0 and extension = ?x
        and operation = "''install''" and uuid = "''u''"]
    by simp
  have s5: "step ?dl ?s4 ?s5"
    using step.run[where this = ?dl and s = ?s4 and i = 0 and uuid = "''u''"
        and t' = "AtExists ?x ''/c/a.a-1.0.0'' ''install''" and w' = ?w] t1
    by simp
  have s6: "step ?dl ?s5 ?s6"
    using step.run[where this = ?dl and s = ?s5 and i = 0 and uuid = "''u''"
        and t' = "Returned ''/c/a.a-1.0.0''" and w' = ?w] t2
    by simp
  have s7: "step ?dl ?s6 ?s7"
    using step.pass_del[where this = ?dl and s = ?s6 and location = "''/c/a.a-1.0.0''"
        and r = "Inr ()" and w' = ?w'] d2
    by simp
  have "reachable ?dl ?s0 ?s0" by (rule reachable.init)
  from this s1 have "reachable ?dl ?s0 ?s1" by (rule reachable.next_step)
  from this s2 have "reachable ?dl ?s0 ?s2" by (rule reachable.next_step)
  from this s3 have "reachable ?dl ?s0 ?s3" by (rule reachable.next_step)
  from this s4 have "reachable ?dl ?s0 ?s4" by (rule reachable.next_step)
  from this s5 have "reachable ?dl ?s0 ?s5" by (rule reachable.next_step)
  from this s6 have r6: "reachable ?dl ?s0 ?s6" by (rule reachable.next_step)
  from this s7 have r7: "reachable ?dl ?s0 ?s7" by (rule reachable.next_step)
  from c r6 r7 show ?thesis by (intro conjI)
qed

text \<open>
  C7, amended. In every state the downloader reaches from a state without calls in
  progress: a call that has gone past its first line, the await of \<open>cleanUpPromise\<close>,
  implies that the promise is resolved, which is to say that \<open>cleanUp\<close> has returned; so
  while the promise is pending every call in progress still stands at that first line,
  and the fetcher has not been invoked since the start. A resolved promise stays resolved
  with every further step, and a call standing at its first line can then always go on.
  When a call is past its first line, the deletions of the pass have all settled unless
  one of them has failed: after a failed deletion the promise resolves with the other
  deletions still in flight, and a download can be served while they run.
\<close>

theorem downloads_wait_for_cleanUp:
  assumes "reachable this s0 s" "tasks s0 = []"
    "cleanUpPromise s0 = Resolved \<longrightarrow> in_flight s0 = [] \<or> rejected s0"
  shows "(\<forall>t\<in>set (tasks s). past_await t \<longrightarrow> cleanUpPromise s = Resolved) \<and>
         (cleanUpPromise s = Pending \<longrightarrow>
            (\<forall>t\<in>set (tasks s). \<exists>extension operation. t = AtAwait extension operation) \<and>
            downloads (store s) = downloads (store s0)) \<and>
         (cleanUpPromise s0 = Resolved \<longrightarrow> cleanUpPromise s = Resolved) \<and>
         (\<forall>s'. cleanUpPromise s = Resolved \<and> step this s s' \<longrightarrow> cleanUpPromise s' = Resolved) \<and>
         (\<forall>i extension operation.
            cleanUpPromise s = Resolved \<and> i < length (tasks s) \<and>
            tasks s ! i = AtAwait extension operation \<longrightarrow>
            step this s (s\<lparr>tasks := (tasks s)[i := AtLocation extension operation]\<rparr>)) \<and>
         (\<forall>t\<in>set (tasks s). past_await t \<longrightarrow> in_flight s = [] \<or> rejected s)"
proof -
  note inv = reachable_invariant[OF assms]
  from inv have i: "\<forall>t\<in>set (tasks s). past_await t \<longrightarrow> cleanUpPromise s = Resolved" by blast
  from inv have f: "cleanUpPromise s = Resolved \<longrightarrow> in_flight s = [] \<or> rejected s" by blast
  have a: "\<exists>extension operation. t = AtAwait extension operation"
    if "cleanUpPromise s = Pending" "t \<in> set (tasks s)" for t
  proof -
    from that i have "\<not> past_await t" by auto
    then show ?thesis by (cases t) auto
  qed
  have st: "cleanUpPromise s' = Resolved" if "cleanUpPromise s = Resolved" "step this s s'" for s'
    using step_invariant[OF that(2) i f] that(1) by blast
  have go: "step this s (s\<lparr>tasks := (tasks s)[i := AtLocation extension operation]\<rparr>)"
    if "cleanUpPromise s = Resolved" "i < length (tasks s)"
      "tasks s ! i = AtAwait extension operation" for i extension operation
  proof -
    have "step this s (s\<lparr>tasks := (tasks s)[i := fst (task_step this [] (store s) (tasks s ! i))]\<rparr>)"
      using that(2,3,1) by (rule step.resume)
    with that(3) show ?thesis by simp
  qed
  have fl: "\<forall>t\<in>set (tasks s). past_await t \<longrightarrow> in_flight s = [] \<or> rejected s"
    using i f by blast
  from inv a st go fl show ?thesis by blast
qed

theorem downloads_wait_for_cleanUp_witness:
  "reachable \<lparr>extensionsDownloadDir = ''/c'', cache = 20\<rparr>
     \<lparr>cleanUpPromise = new_cleanUpPromise (Some ''/c''), in_flight = [''/c/readme.txt''],
      rejected = False,
      store = \<lparr>files = {''/c/readme.txt''}, downloads = [], faults = (\<lambda>_. None)\<rparr>, tasks = []\<rparr>
     \<lparr>cleanUpPromise = Pending, in_flight = [''/c/readme.txt''], rejected = False,
      store = \<lparr>files = {''/c/readme.txt''}, downloads = [], faults = (\<lambda>_. None)\<rparr>,
      tasks = [AtAwait \<lparr>gallery_id = ''pub.ext'', gallery_version = ''1.0.0''\<rparr> ''install'']\<rparr> \<and>
   \<not> step \<lparr>extensionsDownloadDir = ''/c'', cache = 20\<rparr>
     \<lparr>cleanUpPromise = Pending, in_flight = [''/c/readme.txt''], rejected = False,
      store = \<lparr>files = {''/c/readme.txt''}, downloads = [], faults = (\<lambda>_. None)\<rparr>,
      tasks = [AtAwait \<lparr>gallery_id = ''pub.ext'', gallery_version = ''1.0.0''\<rparr> ''install'']\<rparr>
     \<lparr>cleanUpPromise = Pending, in_flight = [''/c/readme.txt''], rejected = False,
      store = \<lparr>files = {''/c/readme.txt''}, downloads = [], faults = (\<lambda>_. None)\<rparr>,
      tasks = [AtLocation \<lparr>gallery_id = ''pub.ext'', gallery_version = ''1.0.0''\<rparr> ''install'']\<rparr>"
proof -
  let ?dl = "\<lparr>extensionsDownloadDir = ''/c'', cache = 20\<rparr>"
  let ?w = "\<lparr>files = {''/c/readme.txt''}, downloads = [], faults = (\<lambda>_. None)\<rparr> :: string world"
  let ?x = "\<lparr>gallery_id = ''pub.ext'', gallery_version = ''1.0.0''\<rparr>"
  let ?s0 = "\<lparr>cleanUpPromise = new_cleanUpPromise (Some ''/c''), in_flight = [''/c/readme.txt''],
      rejected = False, store = ?w, tasks = []\<rparr>"
  let ?s1 = "\<lparr>cleanUpPromise = Pending, in_flight = [''/c/readme.txt''], rejected = False,
      store = ?w, tasks = [AtAwait ?x ''install'']\<rparr>"
  let ?s2 = "\<lparr>cleanUpPromise = Pending, in_flight = [''/c/readme.txt''], rejected = False,
      store = ?w, tasks = [AtLocation ?x ''install'']\<rparr>"
  have "reachable ?dl ?s0 ?s0" by (rule reachable.init)
  moreover have "step ?dl ?s0 (?s0\<lparr>tasks := tasks ?s0 @ [AtAwait ?x ''install'']\<rparr>)"
    by (rule step.enter)
  ultimately have "reachable ?dl ?s0 (?s0\<lparr>tasks := tasks ?s0 @ [AtAwait ?x ''install'']\<rparr>)"
    by (rule reachable.next_step)
  then have r1: "reachable ?dl ?s0 ?s1" by (simp add: new_cleanUpPromise_def)
  have i0: "tasks ?s0 = []" "cleanUpPromise ?s0 = Resolved \<longrightarrow> in_flight ?s0 = [] \<or> rejected ?s0"
    by (simp_all add: new_cleanUpPromise_def)
  have "\<not> step ?dl ?s1 ?s2"
  proof
    assume "step ?dl ?s1 ?s2"
    with r1 have "reachable ?dl ?s0 ?s2" by (rule reachable.next_step)
    from conjunct1[OF downloads_wait_for_cleanUp[OF this i0]]
    have "\<forall>t\<in>set (tasks ?s2). past_await t \<longrightarrow> cleanUpPromise ?s2 = Resolved" .
    then show False by simp
  qed
  with r1 show ?thesis by (intro conjI)
qed

text \<open>
  C8 as stated fails. With the children \<open>readme.txt\<close>, \<open>a.b-01.0.0\<close> and \<open>a.b-1.0.0\<close>
  the name \<open>readme.txt\<close> does not parse and its location is marked in the first loop, but
  the comparison of the two versions of \<open>a.b\<close> throws in the second loop: the pass logs
  the error and issues no deletion, so \<open>readme.txt\<close> is not deleted.
\<close>

theorem unrecognized_counterexample:
  "parse ''readme.txt'' = None \<and>
   fst (scan_children (listing ''/c'' [''readme.txt'', ''a.b-01.0.0'', ''a.b-1.0.0'']) [] []) =
     [''/c/readme.txt''] \<and>
   cleanUp
     \<lparr>exists = (\<lambda>_. Inr True),
      resolve = (\<lambda>_. Inr (Some (listing ''/c'' [''readme.txt'', ''a.b-01.0.0'', ''a.b-1.0.0'']))),
      del = (\<lambda>_. (1, Inr ()))\<rparr> ''/c'' 20 =
     \<lparr>log = [LogError (Error ''Invalid Version: 01.0.0'')], deletions = [], settled_at = 0,
      outcome = Inr ()\<rparr>"
proof -
  have "parse ''readme.txt'' = None" by code_simp
  moreover have
    "fst (scan_children (listing ''/c'' [''readme.txt'', ''a.b-01.0.0'', ''a.b-1.0.0'']) [] []) =
     [''/c/readme.txt'']"
    by code_simp
  moreover have "cleanUp
     \<lparr>exists = (\<lambda>_. Inr True),
      resolve = (\<lambda>_. Inr (Some (listing ''/c'' [''readme.txt'', ''a.b-01.0.0'', ''a.b-1.0.0'']))),
      del = (\<lambda>_. (1, Inr ()))\<rparr> ''/c'' 20 =
     \<lparr>log = [LogError (Error ''Invalid Version: 01.0.0'')], deletions = [], settled_at = 0,
      outcome = Inr ()\<rparr>"
    by code_simp
  ultimately show ?thesis by (intro conjI)
qed

text \<open>
  C8, amended. A direct child of the cache root whose name does not parse into an identity
  is marked for deletion in the first loop of the pass. When no version comparison of the
  second loop throws (every package with two or more cached entries has versions that the
  library accepts), its location is in \<open>toDelete\<close> for every retention limit, and once the
  listing is obtained \<open>cleanUp\<close> issues its deletion. When a comparison throws, the pass
  issues no deletion.
\<close>

theorem unrecognized_children_deleted:
  assumes "stat \<in> set children" "parse (name stat) = None"
  shows "resource stat \<in> set (fst (scan_children children [] [])) \<and>
         (comparable children \<longrightarrow>
            (\<exists>toDelete. collect_toDelete limit children = Inr toDelete \<and>
               resource stat \<in> set toDelete) \<and>
            (exists fileService dir = Inr True \<and>
             resolve fileService dir = Inr (Some children) \<longrightarrow>
               resource stat \<in> set (deletions (cleanUp fileService dir limit)))) \<and>
         (\<not> comparable children \<and> exists fileService dir = Inr True \<and>
          resolve fileService dir = Inr (Some children) \<longrightarrow>
            deletions (cleanUp fileService dir limit) = [])"
proof (intro conjI impI)
  show "resource stat \<in> set (fst (scan_children children [] []))"
    using assms by (rule unrecognized_marked)
next
  assume "comparable children"
  then obtain toDelete where t: "collect_toDelete limit children = Inr toDelete"
    using collect_toDelete_Inr by blast
  with assms have "resource stat \<in> set toDelete" by (rule unrecognized_in_toDelete)
  with t show "\<exists>toDelete. collect_toDelete limit children = Inr toDelete \<and>
               resource stat \<in> set toDelete"
    by blast
next
  assume "comparable children"
    and l: "exists fileService dir = Inr True \<and> resolve fileService dir = Inr (Some children)"
  then obtain toDelete where t: "collect_toDelete limit children = Inr toDelete"
    using collect_toDelete_Inr by blast
  with assms have "resource stat \<in> set toDelete" by (rule unrecognized_in_toDelete)
  moreover from l t have "deletions (cleanUp fileService dir limit) = toDelete"
    by (simp add: cleanUp_deletions)
  ultimately show "resource stat \<in> set (deletions (cleanUp fileService dir limit))" by simp
next
  assume "\<not> comparable children \<and> exists fileService dir = Inr True \<and>
          resolve fileService dir = Inr (Some children)"
  then obtain e where "cleanUp fileService dir limit =
     \<lparr>log = [LogError e], deletions = [], settled_at = 0, outcome = Inr ()\<rparr>"
    using cleanUp_not_comparable by blast
  then show "deletions (cleanUp fileService dir limit) = []" by simp
qed

theorem unrecognized_children_deleted_witness:
  "parse ''readme.txt'' = None \<and> parse ''pub.ext'' = None \<and> parse ''pub.ext-1.x.0'' = None \<and>
   parse ''-1.0.0'' = None \<and>
   comparable (listing ''/c'' [''pub.ext-1.0.0'', ''readme.txt'']) \<and>
   ''/c/readme.txt'' \<in> set (deletions (cleanUp
      \<lparr>exists = (\<lambda>_. Inr True),
       resolve = (\<lambda>_. Inr (Some (listing ''/c'' [''pub.ext-1.0.0'', ''readme.txt'']))),
       del = (\<lambda>_. (1, Inr ()))\<rparr> ''/c'' 20))"
proof -
  let ?kids = "listing ''/c'' [''pub.ext-1.0.0'', ''readme.txt'']"
  let ?fs = "\<lparr>exists = (\<lambda>_. Inr True), resolve = (\<lambda>_. Inr (Some ?kids)),
       del = (\<lambda>_. (1, Inr ()))\<rparr>"
  let ?stat = "\<lparr>name = ''readme.txt'', resource = ''/c/readme.txt''\<rparr>"
  have p: "parse ''readme.txt'' = None" "parse ''pub.ext'' = None" "parse ''pub.ext-1.x.0'' = None"
    "parse ''-1.0.0'' = None"
    by code_simp+
  have k: "comparable ?kids" by code_simp
  have m: "?stat \<in> set ?kids" by (simp add: listing_def joinPath_def)
  have n: "parse (name ?stat) = None" using p(1) by simp
  have l: "exists ?fs ''/c'' = Inr True \<and> resolve ?fs ''/c'' = Inr (Some ?kids)" by simp
  note th = unrecognized_children_deleted[OF m n, of 20 ?fs "''/c''"]
  from mp[OF conjunct2[OF mp[OF conjunct1[OF conjunct2[OF th]] k]] l]
  have "''/c/readme.txt'' \<in> set (deletions (cleanUp ?fs ''/c'' 20))" by simp
  with p k show ?thesis by (intro conjI)
qed

text \<open>
  C9. Whatever the file service answers, \<open>cleanUp\<close> ends normally, so the promise it
  returns is fulfilled: what the \<open>try\<close> block throws is logged by the \<open>catch\<close> block as
  the last entry and goes no further. A throwing \<open>exists\<close> or \<open>resolve\<close> leaves that one
  log entry and no deletion; a missing root leaves the trace note and no deletion.
\<close>

theorem cleanUp_never_throws:
  "outcome (cleanUp fileService dir limit) = Inr () \<and>
   (\<forall>e. outcome (cleanUp_try fileService dir limit) = Inl e \<longrightarrow>
      log (cleanUp fileService dir limit) = log (cleanUp_try fileService dir limit) @ [LogError e]) \<and>
   (\<forall>e. exists fileService dir = Inl e \<longrightarrow>
      cleanUp fileService dir limit =
        \<lparr>log = [LogError e], deletions = [], settled_at = 0, outcome = Inr ()\<rparr>) \<and>
   (exists fileService dir = Inr False \<longrightarrow>
      cleanUp fileService dir limit =
        \<lparr>log = [Trace [''Extension VSIX downlads cache dir does not exist'']],
         deletions = [], settled_at = 0, outcome = Inr ()\<rparr>) \<and>
   (\<forall>e. exists fileService dir = Inr True \<and> resolve fileService dir = Inl e \<longrightarrow>
      cleanUp fileService dir limit =
        \<lparr>log = [LogError e], deletions = [], settled_at = 0, outcome = Inr ()\<rparr>)"
proof -
  have "outcome (cleanUp fileService dir limit) = Inr ()"
    by (cases "outcome (cleanUp_try fileService dir limit)") (simp_all add: cleanUp_def Let_def)
  moreover have "log (cleanUp fileService dir limit) =
      log (cleanUp_try fileService dir limit) @ [LogError e]"
    if "outcome (cleanUp_try fileService dir limit) = Inl e" for e
    using that by (simp add: cleanUp_def Let_def)
  moreover have "cleanUp fileService dir limit =
        \<lparr>log = [LogError e], deletions = [], settled_at = 0, outcome = Inr ()\<rparr>"
    if "exists fileService dir = Inl e" for e
    using that by (simp add: cleanUp_def cleanUp_try_def Let_def)
  moreover have "cleanUp fileService dir limit =
        \<lparr>log = [Trace [''Extension VSIX downlads cache dir does not exist'']],
         deletions = [], settled_at = 0, outcome = Inr ()\<rparr>"
    if "exists fileService dir = Inr False"
    using that by (simp add: cleanUp_def cleanUp_try_def Let_def)
  moreover have "cleanUp fileService dir limit =
        \<lparr>log = [LogError e], deletions = [], settled_at = 0, outcome = Inr ()\<rparr>"
    if "exists fileService dir = Inr True \<and> resolve fileService dir = Inl e" for e
    using that by (simp add: cleanUp_def cleanUp_try_def Let_def)
  ultimately show ?thesis by blast
qed

theorem cleanUp_never_throws_witness:
  "cleanUp \<lparr>exists = (\<lambda>_. Inr True), resolve = (\<lambda>_. Inl (Error ''EACCES'')),
            del = (\<lambda>_. (1, Inr ()))\<rparr> ''/c'' 20 =
     \<lparr>log = [LogError (Error ''EACCES'')], deletions = [], settled_at = 0, outcome = Inr ()\<rparr> \<and>
   outcome (cleanUp \<lparr>exists = (\<lambda>_. Inl (Error ''EIO'')), resolve = (\<lambda>_. Inr None),
            del = (\<lambda>_. (1, Inr ()))\<rparr> ''/c'' 20) = Inr ()"
  using cleanUp_never_throws[of "\<lparr>exists = (\<lambda>_. Inr True), resolve = (\<lambda>_. Inl (Error ''EACCES'')),
            del = (\<lambda>_. (1, Inr ()))\<rparr>" "''/c''" 20]
    cleanUp_never_throws[of "\<lparr>exists = (\<lambda>_. Inl (Error ''EIO'')), resolve = (\<lambda>_. Inr None),
            del = (\<lambda>_. (1, Inr ()))\<rparr>" "''/c''" 20]
  by simp

text \<open>
  C10 as stated fails in its second half. The name written for the package id \<open>noext\<close>
  does not parse, and its entry is marked in the first loop; but beside two entries of
  another package of which one has a field with a leading zero, the comparison throws and
  the pass issues no deletion, so the entry is not deleted.
\<close>

theorem dotless_id_counterexample:
  "getName 20 ''u'' \<lparr>gallery_id = ''noext'', gallery_version = ''1.0.0''\<rparr> = ''noext-1.0.0'' \<and>
   parse ''noext-1.0.0'' = None \<and>
   cleanUp
     \<lparr>exists = (\<lambda>_. Inr True),
      resolve = (\<lambda>_. Inr (Some (listing ''/c'' [''noext-1.0.0'', ''p.q-2.0.0'', ''p.q-2.00.0'']))),
      del = (\<lambda>_. (1, Inr ()))\<rparr> ''/c'' 20 =
     \<lparr>log = [LogError (Error ''Invalid Version: 2.00.0'')], deletions = [], settled_at = 0,
      outcome = Inr ()\<rparr>"
proof -
  have "getName 20 ''u'' \<lparr>gallery_id = ''noext'', gallery_version = ''1.0.0''\<rparr> = ''noext-1.0.0''"
    by code_simp
  moreover have "parse ''noext-1.0.0'' = None" by code_simp
  moreover have "cleanUp
     \<lparr>exists = (\<lambda>_. Inr True),
      resolve = (\<lambda>_. Inr (Some (listing ''/c'' [''noext-1.0.0'', ''p.q-2.0.0'', ''p.q-2.00.0'']))),
      del = (\<lambda>_. (1, Inr ()))\<rparr> ''/c'' 20 =
     \<lparr>log = [LogError (Error ''Invalid Version: 2.00.0'')], deletions = [], settled_at = 0,
      outcome = Inr ()\<rparr>"
    by code_simp
  ultimately show ?thesis by (intro conjI)
qed

text \<open>
  C10, amended. For an identity whose package id has no dot (and whose version is three
  numbers separated by dots), the name written in enabled mode does not parse. A cached
  entry under that name is therefore marked for deletion in the first loop of the pass,
  also when it is the only entry of its package. When no version comparison of the second
  loop throws, its location is in \<open>toDelete\<close> for every retention limit and every listing it
  occurs in, and once the listing is obtained \<open>cleanUp\<close> issues its deletion. (When a
  comparison throws, the pass issues no deletion, as for every marked entry.)
\<close>

theorem dotless_id_never_parses:
  assumes "limit \<noteq> 0" "CHR ''.'' \<notin> set (gallery_id extension)"
    "regex_match version_group (gallery_version extension)"
  shows "parse (getName limit uuid extension) = None \<and>
     (\<forall>stat children retention fileService dir.
        stat \<in> set children \<and> name stat = getName limit uuid extension \<longrightarrow>
        resource stat \<in> set (fst (scan_children children [] [])) \<and>
        (comparable children \<longrightarrow>
           (\<exists>toDelete. collect_toDelete retention children = Inr toDelete \<and>
              resource stat \<in> set toDelete) \<and>
           (exists fileService dir = Inr True \<and>
            resolve fileService dir = Inr (Some children) \<longrightarrow>
              resource stat \<in> set (deletions (cleanUp fileService dir retention)))))"
proof -
  have n: "parse (getName limit uuid extension) = None"
    using assms by (rule parse_getName_no_dot)
  have "resource stat \<in> set (fst (scan_children children [] [])) \<and>
        (comparable children \<longrightarrow>
           (\<exists>toDelete. collect_toDelete retention children = Inr toDelete \<and>
              resource stat \<in> set toDelete) \<and>
           (exists fileService dir = Inr True \<and>
            resolve fileService dir = Inr (Some children) \<longrightarrow>
              resource stat \<in> set (deletions (cleanUp fileService dir retention))))"
    if s: "stat \<in> set children \<and> name stat = getName limit uuid extension"
    for stat children retention and fileService :: IFileService and dir
  proof (intro conjI impI)
    from s n have pn: "parse (name stat) = None" by simp
    from s have m: "stat \<in> set children" by simp
    show "resource stat \<in> set (fst (scan_children children [] []))"
      using m pn by (rule unrecognized_marked)
    {
      assume "comparable children"
      then obtain toDelete where t: "collect_toDelete retention children = Inr toDelete"
        using collect_toDelete_Inr by blast
      with m pn have r: "resource stat \<in> set toDelete" by (rule unrecognized_in_toDelete)
      with t show "\<exists>toDelete. collect_toDelete retention children = Inr toDelete \<and>
              resource stat \<in> set toDelete"
        by blast
      assume l: "exists fileService dir = Inr True \<and>
            resolve fileService dir = Inr (Some children)"
      with t have "deletions (cleanUp fileService dir retention) = toDelete"
        by (simp add: cleanUp_deletions)
      with r show "resource stat \<in> set (deletions (cleanUp fileService dir retention))"
        by simp
    }
  qed
  with n show ?thesis by blast
qed

theorem dotless_id_never_parses_witness:
  "getName 20 ''u'' \<lparr>gallery_id = ''noext'', gallery_version = ''1.0.0''\<rparr> = ''noext-1.0.0'' \<and>
   parse ''noext-1.0.0'' = None \<and>
   comparable (listing ''/c'' [''noext-1.0.0'']) \<and>
   ''/c/noext-1.0.0'' \<in> set (deletions (cleanUp
      \<lparr>exists = (\<lambda>_. Inr True),
       resolve = (\<lambda>_. Inr (Some (listing ''/c'' [''noext-1.0.0'']))),
       del = (\<lambda>_. (1, Inr ()))\<rparr> ''/c'' 20))"
proof -
  let ?x = "\<lparr>gallery_id = ''noext'', gallery_version = ''1.0.0''\<rparr>"
  let ?kids = "listing ''/c'' [''noext-1.0.0'']"
  let ?fs = "\<lparr>exists = (\<lambda>_. Inr True), resolve = (\<lambda>_. Inr (Some ?kids)),
       del = (\<lambda>_. (1, Inr ()))\<rparr>"
  let ?stat = "\<lparr>name = ''noext-1.0.0'', resource = ''/c/noext-1.0.0''\<rparr>"
  have g: "getName 20 ''u'' ?x = ''noext-1.0.0''" by code_simp
  have v: "regex_match version_group (gallery_version ?x)" by code_simp
  have d: "CHR ''.'' \<notin> set (gallery_id ?x)" by simp
  have z: "(20::nat) \<noteq> 0" by simp
  have k: "comparable ?kids" by code_simp
  have m: "?stat \<in> set ?kids \<and> name ?stat = getName 20 ''u'' ?x"
    by (simp add: listing_def joinPath_def g)
  have l: "exists ?fs ''/c'' = Inr True \<and> resolve ?fs ''/c'' = Inr (Some ?kids)" by simp
  note th = dotless_id_never_parses[OF z d v, of "''u''"]
  from conjunct1[OF th] g have pn: "parse ''noext-1.0.0'' = None" by simp
  note a = mp[OF spec[OF spec[OF spec[OF spec[OF spec[OF conjunct2[OF th],
      of ?stat], of ?kids], of 20], of ?fs], of "''/c''"] m]
  from mp[OF conjunct2[OF mp[OF conjunct2[OF a] k]] l]
  have "''/c/noext-1.0.0'' \<in> set (deletions (cleanUp ?fs ''/c'' 20))" by simp
  with g pn k show ?thesis by (intro conjI)
qed

end
